theory Spec2Isabelle
  imports Main "HOL-Library.Word" "HOL-Library.Log_Nat"
begin

unbundle bit_operations_syntax

section \<open>Values of the program\<close>

text \<open>
  A Go \<open>string\<close> is a sequence of bytes: \<open>len(s)\<close> counts bytes, \<open>s[i]\<close> is a byte and
  \<open>s[1:]\<close> drops one byte. It is modelled by \<^typ>\<open>string\<close>, whose characters are the 256
  byte values; a code point beyond ASCII takes several of them.

  Go's \<open>int\<close> is modelled by \<^typ>\<open>int\<close>: every integer computed here is a length, an index
  or a distance, bounded by the sum of two string lengths, far below \<open>2^63\<close>.

  A \<open>float32\<close> is a finite value, an infinity or NaN. The finite values are carried as
  rationals; the two zeros are one value, which the comparisons of Go cannot tell apart, and
  no operation of this program divides by a zero that could be negative.
\<close>

datatype float32 = Finite rat | PosInf | NegInf | NaN

text \<open>
  The comparison \<open>x > y\<close> of two \<open>float32\<close>: false as soon as one side is NaN.
\<close>

fun f32_gt :: "float32 \<Rightarrow> float32 \<Rightarrow> bool" where
  "f32_gt (Finite a) (Finite b) = (b < a)"
| "f32_gt PosInf (Finite b) = True"
| "f32_gt PosInf NegInf = True"
| "f32_gt (Finite a) NegInf = True"
| "f32_gt x y = False"

subsection \<open>Arithmetic of \<open>float32\<close>\<close>

text \<open>
  Every operation on \<open>float32\<close> values gives the exact result rounded to the nearest
  representable value, ties to the even significand (IEEE 754 binary32: 24 bits of
  significand, least exponent \<open>-126\<close>, overflow to infinity from \<open>2^128\<close>).

  \<open>floor_log2 x\<close> is the exponent \<open>e\<close> with \<open>2^e \<le> x < 2^(e+1)\<close> of a positive
  rational, found from the bit lengths of numerator and denominator. \<open>f32_nearest x\<close> is
  the multiple of the unit in the last place \<open>2^(e-23)\<close> nearest to \<open>x\<close>.
\<close>

definition floor_log2 :: "rat \<Rightarrow> int" where
  "floor_log2 x =
     (let (p, q) = quotient_of x; k = bitlen p - bitlen q
      in if 2 powi k \<le> x then k else k - 1)"

definition round_half_even :: "rat \<Rightarrow> int" where
  "round_half_even q =
     (let f = \<lfloor>q\<rfloor>; r = q - of_int f
      in if r < 1 / 2 then f else if 1 / 2 < r then f + 1 else if even f then f else f + 1)"

definition f32_exponent :: "rat \<Rightarrow> int" where
  "f32_exponent x = max (floor_log2 x) (- 126)"

definition f32_nearest :: "rat \<Rightarrow> rat" where
  "f32_nearest x =
     (let ulp = 2 powi (f32_exponent x - 23)
      in of_int (round_half_even (x / ulp)) * ulp)"

definition f32_round_pos :: "rat \<Rightarrow> float32" where
  "f32_round_pos x = (if 2 powi 128 \<le> f32_nearest x then PosInf else Finite (f32_nearest x))"

fun f32_neg :: "float32 \<Rightarrow> float32" where
  "f32_neg (Finite x) = Finite (- x)"
| "f32_neg PosInf = NegInf"
| "f32_neg NegInf = PosInf"
| "f32_neg NaN = NaN"

definition f32_round :: "rat \<Rightarrow> float32" where
  "f32_round x =
     (if x = 0 then Finite 0 else if 0 < x then f32_round_pos x
      else f32_neg (f32_round_pos (- x)))"

text \<open>
  The conversion \<open>float32(n)\<close> of an \<open>int\<close>, and \<open>+\<close>, \<open>-\<close> and \<open>/\<close>.
\<close>

definition f32_of_int :: "int \<Rightarrow> float32" where
  "f32_of_int n = f32_round (of_int n)"

fun f32_add :: "float32 \<Rightarrow> float32 \<Rightarrow> float32" where
  "f32_add (Finite a) (Finite b) = f32_round (a + b)"
| "f32_add NaN y = NaN"
| "f32_add x NaN = NaN"
| "f32_add PosInf NegInf = NaN"
| "f32_add NegInf PosInf = NaN"
| "f32_add PosInf y = PosInf"
| "f32_add NegInf y = NegInf"
| "f32_add x PosInf = PosInf"
| "f32_add x NegInf = NegInf"

definition f32_sub :: "float32 \<Rightarrow> float32 \<Rightarrow> float32" where
  "f32_sub x y = f32_add x (f32_neg y)"

fun f32_div :: "float32 \<Rightarrow> float32 \<Rightarrow> float32" where
  "f32_div (Finite a) (Finite b) =
     (if b = 0 then (if a = 0 then NaN else if 0 < a then PosInf else NegInf)
      else f32_round (a / b))"
| "f32_div NaN y = NaN"
| "f32_div x NaN = NaN"
| "f32_div (Finite a) y = Finite 0"
| "f32_div PosInf (Finite b) = (if 0 \<le> b then PosInf else NegInf)"
| "f32_div NegInf (Finite b) = (if 0 \<le> b then NegInf else PosInf)"
| "f32_div x y = NaN"

section \<open>Similarity from a distance, and the best match (algorithms/utilities.go)\<close>

record Suggestion =
  Likelihood :: float32
  Word :: string

type_synonym DistanceAlgorithm = "string \<Rightarrow> string \<Rightarrow> int"
type_synonym SimilarityAlgorithm = "string \<Rightarrow> string \<Rightarrow> float32"


text \<open>
  The \<open>for ... range validStrings\<close> loop of \<open>SuggestWord\<close>, with the two local variables
  \<open>highestRatio\<close> and \<open>result\<close> passed along.
\<close>

fun SuggestWord_loop ::
  "string \<Rightarrow> SimilarityAlgorithm \<Rightarrow> string list \<Rightarrow> float32 \<Rightarrow> string \<Rightarrow> Suggestion" where
  "SuggestWord_loop inputString algorithm [] highestRatio result =
     \<lparr>Likelihood = highestRatio, Word = result\<rparr>"
| "SuggestWord_loop inputString algorithm (currentString # rest) highestRatio result =
     (let likelihood = algorithm inputString currentString
      in if f32_gt likelihood highestRatio
         then SuggestWord_loop inputString algorithm rest likelihood currentString
         else SuggestWord_loop inputString algorithm rest highestRatio result)"

text \<open>
  Both variables start at their zero values: \<open>0\<close> and the empty string.
\<close>

definition SuggestWord :: "string \<Rightarrow> string list \<Rightarrow> SimilarityAlgorithm \<Rightarrow> Suggestion" where
  "SuggestWord inputString validStrings algorithm =
     SuggestWord_loop inputString algorithm validStrings (Finite 0) ''''"


section \<open>Decoding a string into runes\<close>

text \<open>
  \<open>DynamicLevenshtein\<close> converts both strings with \<open>[]rune(s)\<close>. Go defines that
  conversion by UTF-8 decoding: a well-formed sequence of one to four bytes gives its code
  point, and a byte that starts no well-formed sequence gives U+FFFD and is passed alone.
  \<open>DecodeRuneInString\<close> returns the rune at the head of a string and its width in bytes,
  with the byte ranges of the package \<open>unicode/utf8\<close>.
\<close>

type_synonym rune = "32 word"

definition RuneError :: rune where
  "RuneError = 0xFFFD"

definition byte_in :: "nat \<Rightarrow> nat \<Rightarrow> char \<Rightarrow> bool" where
  "byte_in lo hi c = (lo \<le> of_char c \<and> (of_char c :: nat) \<le> hi)"

definition rune_of :: "char \<Rightarrow> rune" where
  "rune_of c = of_nat (of_char c)"

definition accept_lo :: "char \<Rightarrow> nat" where
  "accept_lo s0 = (if of_char s0 = (0xE0::nat) then 0xA0 else if of_char s0 = (0xF0::nat) then 0x90 else 0x80)"

definition accept_hi :: "char \<Rightarrow> nat" where
  "accept_hi s0 = (if of_char s0 = (0xED::nat) then 0x9F else if of_char s0 = (0xF4::nat) then 0x8F else 0xBF)"

fun DecodeRuneInString :: "string \<Rightarrow> rune \<times> nat" where
  "DecodeRuneInString [] = (RuneError, 0)"
| "DecodeRuneInString (s0 # rest) =
     (if byte_in 0x00 0x7F s0 then (rune_of s0, 1)
      else if byte_in 0xC2 0xDF s0 then
        (case rest of
           s1 # _ \<Rightarrow>
             if byte_in (accept_lo s0) (accept_hi s0) s1
             then (push_bit 6 (rune_of s0 AND 0x1F) OR (rune_of s1 AND 0x3F), 2)
             else (RuneError, 1)
         | _ \<Rightarrow> (RuneError, 1))
      else if byte_in 0xE0 0xEF s0 then
        (case rest of
           s1 # s2 # _ \<Rightarrow>
             if byte_in (accept_lo s0) (accept_hi s0) s1 \<and> byte_in 0x80 0xBF s2
             then (push_bit 12 (rune_of s0 AND 0x0F) OR push_bit 6 (rune_of s1 AND 0x3F)
                     OR (rune_of s2 AND 0x3F), 3)
             else (RuneError, 1)
         | _ \<Rightarrow> (RuneError, 1))
      else if byte_in 0xF0 0xF4 s0 then
        (case rest of
           s1 # s2 # s3 # _ \<Rightarrow>
             if byte_in (accept_lo s0) (accept_hi s0) s1 \<and> byte_in 0x80 0xBF s2
                \<and> byte_in 0x80 0xBF s3
             then (push_bit 18 (rune_of s0 AND 0x07) OR push_bit 12 (rune_of s1 AND 0x3F)
                     OR push_bit 6 (rune_of s2 AND 0x3F) OR (rune_of s3 AND 0x3F), 4)
             else (RuneError, 1)
         | _ \<Rightarrow> (RuneError, 1))
      else (RuneError, 1))"

function runes :: "string \<Rightarrow> rune list" where
  "runes s =
     (if s = [] then []
      else fst (DecodeRuneInString s) # runes (drop (snd (DecodeRuneInString s)) s))"
  by pat_completeness auto
termination
proof (relation "measure length")
  show "wf (measure length)" by simp
next
  fix s :: string
  assume "s \<noteq> []"
  then have "1 \<le> snd (DecodeRuneInString s)"
    by (cases s) (auto split: list.splits)
  with \<open>s \<noteq> []\<close> show "(drop (snd (DecodeRuneInString s)) s, s) \<in> measure length"
    by (cases s) auto
qed

declare runes.simps [simp del]

section \<open>The distances (Levenshtein, Indel, Damerau-Levenshtein)\<close>

text \<open>
  \<open>RecursiveLevenshtein\<close> compares the first bytes of its arguments and recurses on the
  rests. The recursion does not depend on the element type, so it is stated for lists of any
  type; the source's function is the instance at \<^typ>\<open>string\<close>.
\<close>

fun RecursiveLevenshtein :: "'a list \<Rightarrow> 'a list \<Rightarrow> int" where
  "RecursiveLevenshtein [] targetString = int (length targetString)"
| "RecursiveLevenshtein inputString [] = int (length inputString)"
| "RecursiveLevenshtein (firstInputChar # restInputString) (firstTargetChar # restTargetString) =
     (if firstInputChar = firstTargetChar
      then RecursiveLevenshtein restInputString restTargetString
      else 1 + min (RecursiveLevenshtein (firstInputChar # restInputString) restTargetString)
                 (min (RecursiveLevenshtein restInputString (firstTargetChar # restTargetString))
                      (RecursiveLevenshtein restInputString restTargetString)))"

text \<open>
  \<open>DynamicLevenshtein\<close> fills a matrix of \<open>len + 1\<close> rows and columns over the runes
  of the two strings: the first column and the first row, then the rows from top to bottom,
  each from left to right. Go's \<open>min\<close> of three values is \<open>min x (min y z)\<close>.
\<close>

type_synonym matrix = "int list list"

definition matrix_set :: "matrix \<Rightarrow> nat \<Rightarrow> nat \<Rightarrow> int \<Rightarrow> matrix" where
  "matrix_set m i j v = m[i := (m ! i)[j := v]]"

definition fill_cell :: "rune list \<Rightarrow> rune list \<Rightarrow> nat \<Rightarrow> nat \<Rightarrow> matrix \<Rightarrow> matrix" where
  "fill_cell inputStringRunes targetStringRunes i j m =
     (if inputStringRunes ! (i - 1) = targetStringRunes ! (j - 1)
      then matrix_set m i j (m ! (i - 1) ! (j - 1))
      else matrix_set m i j
             (1 + min (m ! i ! (j - 1)) (min (m ! (i - 1) ! j) (m ! (i - 1) ! (j - 1)))))"

definition DynamicLevenshtein :: "string \<Rightarrow> string \<Rightarrow> int" where
  "DynamicLevenshtein inputString targetString =
     (let inputStringRunes = runes inputString;
          targetStringRunes = runes targetString;
          inputStringLength = length inputStringRunes;
          targetStringLength = length targetStringRunes;
          m0 = replicate (inputStringLength + 1) (replicate (targetStringLength + 1) 0);
          m1 = fold (\<lambda>i m. matrix_set m i 0 (int i)) [0..<inputStringLength + 1] m0;
          m2 = fold (\<lambda>j m. matrix_set m 0 j (int j)) [0..<targetStringLength + 1] m1;
          m3 = fold (\<lambda>i m. fold (\<lambda>j m. fill_cell inputStringRunes targetStringRunes i j m)
                                 [1..<targetStringLength + 1] m)
                    [1..<inputStringLength + 1] m2
      in m3 ! inputStringLength ! targetStringLength)"

definition LevenshteinDistance :: DistanceAlgorithm where
  "LevenshteinDistance inputString targetString = DynamicLevenshtein inputString targetString"

text \<open>
  \<open>IndelDistance\<close> (the Indel file, which follows the Jaro one in algorithms/jaro.go)
  recurses on the bytes of its arguments.
\<close>

fun IndelDistance :: DistanceAlgorithm where
  "IndelDistance [] targetString = int (length targetString)"
| "IndelDistance inputString [] = int (length inputString)"
| "IndelDistance (i0 # inputRest) (t0 # targetRest) =
     (if i0 = t0 then IndelDistance inputRest targetRest
      else (let deleteCost = 1 + IndelDistance inputRest (t0 # targetRest);
                insertCost = 1 + IndelDistance (i0 # inputRest) targetRest
            in min deleteCost insertCost))"

text \<open>
  \<open>DamerauLevenshtein\<close> runs a closure that reads and writes one map from keys
  \<open>a + "|" + b\<close> to distances. The map is passed through the calls in the order in which
  the source makes them: insert, delete, replace, then the transposition.
\<close>

type_synonym cache = "string \<rightharpoonup> int"

function calculateDamerauLevenshteinDistance :: "string \<Rightarrow> string \<Rightarrow> cache \<Rightarrow> int \<times> cache" where
  "calculateDamerauLevenshteinDistance a b cache =
     (let key = a @ ''|'' @ b in
      case cache key of
        Some val \<Rightarrow> (val, cache)
      | None \<Rightarrow>
         (case a of
            [] \<Rightarrow> (int (length b), cache(key \<mapsto> int (length b)))
          | a0 # a1 \<Rightarrow>
             (case b of
                [] \<Rightarrow> (int (length a), cache(key \<mapsto> int (length a)))
              | b0 # b1 \<Rightarrow>
                  if a0 = b0 then
                    (case calculateDamerauLevenshteinDistance a1 b1 cache of
                       (val, cache1) \<Rightarrow> (val, cache1(key \<mapsto> val)))
                  else
                    (case calculateDamerauLevenshteinDistance a b1 cache of
                       (insert', cache1) \<Rightarrow>
                    (case calculateDamerauLevenshteinDistance a1 b cache1 of
                       (delete', cache2) \<Rightarrow>
                    (case calculateDamerauLevenshteinDistance a1 b1 cache2 of
                       (replace', cache3) \<Rightarrow>
                    (let minCost = 1 + min insert' (min delete' replace') in
                     if length a > 1 \<and> length b > 1 \<and> a0 = b ! 1 \<and> a ! 1 = b0
                     then (case calculateDamerauLevenshteinDistance (drop 2 a) (drop 2 b) cache3 of
                             (t, cache4) \<Rightarrow>
                               (let transpose = 1 + t; minCost = min minCost transpose
                                in (minCost, cache4(key \<mapsto> minCost))))
                     else (minCost, cache3(key \<mapsto> minCost)))))))))"
  by pat_completeness auto
termination
  by (relation "measure (\<lambda>(a, b, cache). length a + length b)") auto

declare calculateDamerauLevenshteinDistance.simps [simp del]

definition DamerauLevenshtein :: DistanceAlgorithm where
  "DamerauLevenshtein input target = fst (calculateDamerauLevenshteinDistance input target Map.empty)"

section \<open>The Jaro similarity (algorithms/jaro.go)\<close>

text \<open>
  \<open>match_scan\<close> is the inner loop \<open>for j := start; j < end; j++\<close> with its \<open>break\<close>:
  the first index in the window whose byte equals \<open>c\<close> and is not yet matched.
  \<open>match_step\<close> is the body of the outer loop at index \<open>i\<close>, on the two arrays of marks
  and the counter \<open>matches\<close>. The window radius \<open>max_match_distance\<close> is computed in
  \<open>float64\<close>, exactly for every length below \<open>2^53\<close>: half the longer length, rounded
  down, minus one.
\<close>

function match_scan :: "char \<Rightarrow> string \<Rightarrow> int list \<Rightarrow> int \<Rightarrow> int \<Rightarrow> int option" where
  "match_scan c targetString targetStringMatrix j end =
     (if j < end
      then (if c = targetString ! nat j \<and> targetStringMatrix ! nat j = 0 then Some j
            else match_scan c targetString targetStringMatrix (j + 1) end)
      else None)"
  by pat_completeness auto
termination
  by (relation "measure (\<lambda>(c, t, m, j, e). nat (e - j))") auto

declare match_scan.simps [simp del]

definition match_step ::
  "string \<Rightarrow> string \<Rightarrow> int \<Rightarrow> nat \<Rightarrow> int list \<times> int list \<times> int \<Rightarrow> int list \<times> int list \<times> int" where
  "match_step inputString targetString max_match_distance i st =
     (case st of (inputStringMatrix, targetStringMatrix, matches) \<Rightarrow>
        (let start = max 0 (int i - max_match_distance);
             end = min (int (length targetString)) (int i + max_match_distance + 1)
         in case match_scan (inputString ! i) targetString targetStringMatrix start end of
              None \<Rightarrow> (inputStringMatrix, targetStringMatrix, matches)
            | Some j \<Rightarrow>
                (inputStringMatrix[i := 1], targetStringMatrix[nat j := 1], matches + 1)))"

text \<open>
  In \<open>calculateTranspositions\<close> the loop \<open>for targetStringMatrix[marker] == 0\<close> has no
  bound of its own: reading past the end of the array is a run-time panic, the value
  \<open>None\<close> here.
\<close>

function advance_marker :: "int list \<Rightarrow> nat \<Rightarrow> nat option" where
  "advance_marker targetStringMatrix marker =
     (if marker < length targetStringMatrix
      then (if targetStringMatrix ! marker = 0
            then advance_marker targetStringMatrix (marker + 1)
            else Some marker)
      else None)"
  by pat_completeness auto
termination
  by (relation "measure (\<lambda>(m, marker). length m - marker)") auto

declare advance_marker.simps [simp del]

definition transposition_step ::
  "string \<Rightarrow> string \<Rightarrow> int list \<Rightarrow> int list \<Rightarrow> nat \<Rightarrow> (int \<times> nat) option \<Rightarrow> (int \<times> nat) option" where
  "transposition_step inputString targetString inputStringMatrix targetStringMatrix i st =
     (case st of
        None \<Rightarrow> None
      | Some (transpositions, marker) \<Rightarrow>
          if inputStringMatrix ! i > 0 then
            (case advance_marker targetStringMatrix marker of
               None \<Rightarrow> None
             | Some marker \<Rightarrow>
                 Some (if inputString ! i \<noteq> targetString ! marker
                       then transpositions + 1 else transpositions, marker + 1))
          else Some (transpositions, marker))"

definition calculateTranspositions ::
  "string \<Rightarrow> string \<Rightarrow> int list \<Rightarrow> int list \<Rightarrow> int option" where
  "calculateTranspositions inputString targetString inputStringMatrix targetStringMatrix =
     (case fold (transposition_step inputString targetString inputStringMatrix targetStringMatrix)
             [0..<length inputString] (Some (0, 0)) of
        None \<Rightarrow> None
      | Some (transpositions, marker) \<Rightarrow> Some (transpositions div 2))"

definition JaroSimilarity :: "string \<Rightarrow> string \<Rightarrow> float32 option" where
  "JaroSimilarity inputString targetString =
     (if inputString = targetString then Some (Finite 1)
      else
        (let inputStringLength = length inputString;
             targetStringLength = length targetString;
             max_match_distance = int (max inputStringLength targetStringLength) div 2 - 1;
             (inputStringMatrix, targetStringMatrix, matches) =
               fold (match_step inputString targetString max_match_distance)
                 [0..<inputStringLength]
                 (replicate inputStringLength 0, replicate targetStringLength 0, 0)
         in if matches < 1 then Some (Finite 0)
            else
              (case calculateTranspositions inputString targetString
                      inputStringMatrix targetStringMatrix of
                 None \<Rightarrow> None
               | Some transpositions \<Rightarrow>
                   Some (f32_div
                      (f32_add
                         (f32_add
                            (f32_div (f32_of_int matches) (f32_of_int (int inputStringLength)))
                            (f32_div (f32_of_int matches) (f32_of_int (int targetStringLength))))
                         (f32_div (f32_sub (f32_of_int matches) (f32_of_int transpositions))
                            (f32_of_int matches)))
                      (Finite 3)))))"

text \<open>
  \<open>JaroSimilarity\<close> as the function value handed to \<open>SuggestWord\<close>. The case
  \<open>None\<close> does not arise: \<open>JaroSimilarity\<close> always returns (lemma
  \<open>JaroSimilarity_unit\<close>).
\<close>

definition JaroSimilarity_value :: SimilarityAlgorithm where
  "JaroSimilarity_value inputString targetString =
     (case JaroSimilarity inputString targetString of Some similarity \<Rightarrow> similarity | None \<Rightarrow> NaN)"

section \<open>The recurrence of the specification\<close>

text \<open>
  The recurrence that the specification gives for the Damerau-Levenshtein distance, written
  from its words: the Levenshtein recurrence, where equal first characters cost nothing, and
  one more candidate \<open>1 + distance(a[2:], b[2:])\<close> when \<open>a[0] = b[1]\<close> and
  \<open>a[1] = b[0]\<close>; the least candidate is taken. It has no cache.
\<close>

fun DamerauLevenshtein_recurrence :: "string \<Rightarrow> string \<Rightarrow> int" where
  "DamerauLevenshtein_recurrence [] b = int (length b)"
| "DamerauLevenshtein_recurrence a [] = int (length a)"
| "DamerauLevenshtein_recurrence (a0 # a1) (b0 # b1) =
     (if a0 = b0 then DamerauLevenshtein_recurrence a1 b1
      else (let levenshtein =
                  1 + min (DamerauLevenshtein_recurrence (a0 # a1) b1)
                        (min (DamerauLevenshtein_recurrence a1 (b0 # b1))
                             (DamerauLevenshtein_recurrence a1 b1))
            in if a1 \<noteq> [] \<and> b1 \<noteq> [] \<and> a0 = hd b1 \<and> hd a1 = b0
               then min levenshtein (1 + DamerauLevenshtein_recurrence (tl a1) (tl b1))
               else levenshtein))"

section \<open>Notions of the statements and of the proofs\<close>


text \<open>
  Well-formed UTF-8: decoding never meets a byte that starts no well-formed sequence. A
  head is well formed when it is an ASCII byte or the decoder takes more than one byte.
  A \<open>sequence\<close> is the encoding of one code point: a leading byte and the
  \<open>tail_length\<close> continuation bytes that it announces.
\<close>

definition continuation :: "char \<Rightarrow> bool" where
  "continuation c = byte_in 0x80 0xBF c"

definition tail_length :: "char \<Rightarrow> nat" where
  "tail_length l =
     (if byte_in 0x00 0x7F l then 0 else if byte_in 0xC2 0xDF l then 1
      else if byte_in 0xE0 0xEF l then 2 else 3)"

definition well_formed_head :: "string \<Rightarrow> bool" where
  "well_formed_head s =
     (s \<noteq> [] \<and> (byte_in 0x00 0x7F (hd s) \<or> 1 < snd (DecodeRuneInString s)))"

function well_formed_utf8 :: "string \<Rightarrow> bool" where
  "well_formed_utf8 s =
     (if s = [] then True
      else well_formed_head s \<and> well_formed_utf8 (drop (snd (DecodeRuneInString s)) s))"
  by pat_completeness auto
termination
proof (relation "measure length")
  show "wf (measure length)" by simp
next
  fix s :: string
  assume "s \<noteq> []"
  then have "1 \<le> snd (DecodeRuneInString s)"
    by (cases s) (auto split: list.splits)
  with \<open>s \<noteq> []\<close> show "(drop (snd (DecodeRuneInString s)) s, s) \<in> measure length"
    by (cases s) auto
qed

declare well_formed_utf8.simps [simp del]

definition sequence :: "string \<Rightarrow> bool" where
  "sequence c = (well_formed_head c \<and> length c = Suc (tail_length (hd c)))"

definition decoded :: "string \<Rightarrow> rune" where
  "decoded c = fst (DecodeRuneInString c)"

text \<open>
  \<open>edits a b n\<close>: \<open>a\<close> becomes \<open>b\<close> by keeping, substituting, deleting and
  inserting elements from left to right, \<open>n\<close> of the steps not being a keep.
\<close>

inductive edits :: "'a list \<Rightarrow> 'a list \<Rightarrow> nat \<Rightarrow> bool" where
  edits_Nil: "edits [] [] 0"
| edits_Keep: "edits a b n \<Longrightarrow> edits (x # a) (x # b) n"
| edits_Sub: "edits a b n \<Longrightarrow> edits (x # a) (y # b) (Suc n)"
| edits_Del: "edits a b n \<Longrightarrow> edits (x # a) b (Suc n)"
| edits_Ins: "edits a b n \<Longrightarrow> edits a (y # b) (Suc n)"

text \<open>
  The invariant of the matrix of \<open>DynamicLevenshtein\<close>: its dimensions, and the cells
  that already hold the distance of the two prefixes, namely the first row and column, the
  rows above \<open>i\<close> and the cells left of \<open>j\<close> in row \<open>i\<close>.
\<close>

definition prefix_distance :: "'a list \<Rightarrow> 'a list \<Rightarrow> nat \<Rightarrow> nat \<Rightarrow> int" where
  "prefix_distance a b i j = RecursiveLevenshtein (rev (take i a)) (rev (take j b))"

definition dims :: "matrix \<Rightarrow> nat \<Rightarrow> nat \<Rightarrow> bool" where
  "dims M n m = (length M = Suc n \<and> (\<forall>i\<le>n. length (M ! i) = Suc m))"

definition filled :: "rune list \<Rightarrow> rune list \<Rightarrow> matrix \<Rightarrow> nat \<Rightarrow> nat \<Rightarrow> bool" where
  "filled a b M i j =
     (dims M (length a) (length b) \<and>
      (\<forall>i' j'. i' \<le> length a \<and> j' \<le> length b \<and> (i' = 0 \<or> j' = 0 \<or> i' < i \<or> (i' = i \<and> j' < j))
         \<longrightarrow> M ! i' ! j' = prefix_distance a b i' j'))"


text \<open>
  The invariants of the two loops of \<open>JaroSimilarity\<close>: the arrays hold only 0 and 1, no
  mark is set at or after the current index, and as many marks are set in one array as in
  the other; the transpositions counted so far are at most the marks passed, and as many
  marks remain from the marker as from the current index.
\<close>

definition marks :: "int list \<Rightarrow> nat" where
  "marks m = length (filter (\<lambda>v. v \<noteq> 0) m)"




definition cache_sound :: "cache \<Rightarrow> bool" where
  "cache_sound c =
     (\<forall>k v. c k = Some v \<longrightarrow>
        (\<exists>a b. k = a @ ''|'' @ b \<and> CHR ''|'' \<notin> set a \<and> CHR ''|'' \<notin> set b \<and>
               v = DamerauLevenshtein_recurrence a b))"

section \<open>Properties of the best-match selector\<close>

lemma f32_gt_irrefl: "\<not> f32_gt x x"
  by (cases x) simp_all

lemma f32_gt_trans: "f32_gt x y \<Longrightarrow> f32_gt y z \<Longrightarrow> f32_gt x z"
  by (cases x; cases y; cases z) simp_all

lemma SuggestWord_loop_append:
  "SuggestWord_loop q f (xs @ ys) hr res =
     SuggestWord_loop q f ys (Likelihood (SuggestWord_loop q f xs hr res))
       (Word (SuggestWord_loop q f xs hr res))"
  by (induction xs arbitrary: hr res) (simp_all add: Let_def)

lemma SuggestWord_Nil: "SuggestWord q [] f = \<lparr>Likelihood = Finite 0, Word = ''''\<rparr>"
  by (simp add: SuggestWord_def)

lemma SuggestWord_snoc:
  "SuggestWord q (ws @ [w]) f =
     (if f32_gt (f q w) (Likelihood (SuggestWord q ws f))
      then \<lparr>Likelihood = f q w, Word = w\<rparr> else SuggestWord q ws f)"
  by (simp add: SuggestWord_def SuggestWord_loop_append Let_def)

lemma SuggestWord_cases:
  "(SuggestWord q ws f = \<lparr>Likelihood = Finite 0, Word = ''''\<rparr> \<and>
      (\<forall>j<length ws. \<not> f32_gt (f q (ws ! j)) (Finite 0))) \<or>
   (\<exists>i<length ws.
      SuggestWord q ws f = \<lparr>Likelihood = f q (ws ! i), Word = ws ! i\<rparr> \<and>
      f32_gt (f q (ws ! i)) (Finite 0) \<and>
      (\<forall>j<length ws. \<not> f32_gt (f q (ws ! j)) (f q (ws ! i))) \<and>
      (\<forall>j<i. f q (ws ! j) \<noteq> f q (ws ! i)))"
proof (induction ws rule: rev_induct)
  case Nil
  show ?case by (simp add: SuggestWord_Nil)
next
  case (snoc w ws)
  let ?n = "length ws"
  let ?s = "f q w"
  let ?b = "SuggestWord q ws f"
  have nth_old: "\<And>j. j < ?n \<Longrightarrow> (ws @ [w]) ! j = ws ! j"
    by (simp add: nth_append)
  have nth_new: "(ws @ [w]) ! ?n = w" by simp
  show ?case
  proof (cases "f32_gt ?s (Likelihood ?b)")
    case True
    then have best: "SuggestWord q (ws @ [w]) f = \<lparr>Likelihood = ?s, Word = w\<rparr>"
      by (simp add: SuggestWord_snoc)
    have below: "\<forall>j<?n. \<not> f32_gt (f q (ws ! j)) (Likelihood ?b)"
      using snoc.IH by auto
    have pos: "f32_gt ?s (Finite 0)"
      using snoc.IH True by (auto dest: f32_gt_trans)
    have top: "\<forall>j<Suc ?n. \<not> f32_gt (f q ((ws @ [w]) ! j)) ?s"
    proof (intro allI impI)
      fix j assume "j < Suc ?n"
      show "\<not> f32_gt (f q ((ws @ [w]) ! j)) ?s"
      proof (cases "j = ?n")
        case True
        then show ?thesis by (simp add: f32_gt_irrefl)
      next
        case False
        with \<open>j < Suc ?n\<close> have j: "j < ?n" by simp
        with below have "\<not> f32_gt (f q (ws ! j)) (Likelihood ?b)" by simp
        with \<open>f32_gt ?s (Likelihood ?b)\<close> have "\<not> f32_gt (f q (ws ! j)) ?s"
          by (blast dest: f32_gt_trans)
        with j show ?thesis by (simp add: nth_old)
      qed
    qed
    have first: "\<forall>j<?n. f q ((ws @ [w]) ! j) \<noteq> ?s"
    proof (intro allI impI)
      fix j assume j: "j < ?n"
      with below have "\<not> f32_gt (f q (ws ! j)) (Likelihood ?b)" by simp
      with True have "f q (ws ! j) \<noteq> ?s" by auto
      with j show "f q ((ws @ [w]) ! j) \<noteq> ?s" by (simp add: nth_old)
    qed
    have "?n < length (ws @ [w])" by simp
    moreover have "SuggestWord q (ws @ [w]) f =
        \<lparr>Likelihood = f q ((ws @ [w]) ! ?n), Word = (ws @ [w]) ! ?n\<rparr>"
      using best by simp
    moreover have "f32_gt (f q ((ws @ [w]) ! ?n)) (Finite 0)" using pos by simp
    moreover have "\<forall>j<length (ws @ [w]). \<not> f32_gt (f q ((ws @ [w]) ! j)) (f q ((ws @ [w]) ! ?n))"
      using top by simp
    moreover have "\<forall>j<?n. f q ((ws @ [w]) ! j) \<noteq> f q ((ws @ [w]) ! ?n)"
      using first by simp
    ultimately show ?thesis by blast
  next
    case False
    then have best: "SuggestWord q (ws @ [w]) f = ?b"
      by (simp add: SuggestWord_snoc)
    from snoc.IH show ?thesis
    proof (elim disjE conjE exE)
      assume b: "?b = \<lparr>Likelihood = Finite 0, Word = ''''\<rparr>"
        and none: "\<forall>j<?n. \<not> f32_gt (f q (ws ! j)) (Finite 0)"
      from False b have "\<not> f32_gt ?s (Finite 0)" by simp
      with none have "\<forall>j<length (ws @ [w]). \<not> f32_gt (f q ((ws @ [w]) ! j)) (Finite 0)"
        by (auto simp: nth_append less_Suc_eq)
      with b best show ?thesis by simp
    next
      fix i
      assume i: "i < ?n"
        and b: "?b = \<lparr>Likelihood = f q (ws ! i), Word = ws ! i\<rparr>"
        and pos: "f32_gt (f q (ws ! i)) (Finite 0)"
        and top: "\<forall>j<?n. \<not> f32_gt (f q (ws ! j)) (f q (ws ! i))"
        and first: "\<forall>j<i. f q (ws ! j) \<noteq> f q (ws ! i)"
      from False b have "\<not> f32_gt ?s (f q (ws ! i))" by simp
      with top have top': "\<forall>j<length (ws @ [w]).
          \<not> f32_gt (f q ((ws @ [w]) ! j)) (f q ((ws @ [w]) ! i))"
        using i by (auto simp: nth_append less_Suc_eq)
      have first': "\<forall>j<i. f q ((ws @ [w]) ! j) \<noteq> f q ((ws @ [w]) ! i)"
        using first i by (auto simp: nth_append)
      have "i < length (ws @ [w])" using i by simp
      moreover have "SuggestWord q (ws @ [w]) f =
          \<lparr>Likelihood = f q ((ws @ [w]) ! i), Word = (ws @ [w]) ! i\<rparr>"
        using best b i by (simp add: nth_append)
      moreover have "f32_gt (f q ((ws @ [w]) ! i)) (Finite 0)"
        using pos i by (simp add: nth_append)
      ultimately show ?thesis using top' first' by blast
    qed
  qed
qed

text \<open>
  Claim C1. \<open>SuggestWord\<close> scans the candidates in order from the best
  \<open>{likelihood: 0, word: ""}\<close>: on no candidate it returns that value; one more candidate
  at the end replaces the best of the earlier ones exactly when its score is strictly greater
  than that best's likelihood. So the result is either the initial value, no candidate scoring
  above 0, or the candidate at an index \<open>i\<close> with its score, which is above 0, which no
  candidate exceeds and which no earlier candidate equals: the first candidate that reaches
  the maximal score wins.
\<close>

theorem SuggestWord_scan:
  "SuggestWord q [] f = \<lparr>Likelihood = Finite 0, Word = ''''\<rparr> \<and>
   SuggestWord q (ws @ [w]) f =
     (if f32_gt (f q w) (Likelihood (SuggestWord q ws f))
      then \<lparr>Likelihood = f q w, Word = w\<rparr> else SuggestWord q ws f) \<and>
   ((SuggestWord q ws f = \<lparr>Likelihood = Finite 0, Word = ''''\<rparr> \<and>
      (\<forall>j<length ws. \<not> f32_gt (f q (ws ! j)) (Finite 0))) \<or>
    (\<exists>i<length ws.
      SuggestWord q ws f = \<lparr>Likelihood = f q (ws ! i), Word = ws ! i\<rparr> \<and>
      f32_gt (f q (ws ! i)) (Finite 0) \<and>
      (\<forall>j<length ws. \<not> f32_gt (f q (ws ! j)) (f q (ws ! i))) \<and>
      (\<forall>j<i. f q (ws ! j) \<noteq> f q (ws ! i))))"
  using SuggestWord_Nil [of q f] SuggestWord_snoc [of q ws w f] SuggestWord_cases [of q ws f]
  by blast

theorem SuggestWord_scan_witness:
  "SuggestWord ''q'' ([''b'', ''aa'', ''cc''] @ [''d'']) (\<lambda>q w. Finite (of_nat (length w))) =
     \<lparr>Likelihood = Finite 2, Word = ''aa''\<rparr> \<and>
   SuggestWord ''q'' [''b'', ''aa'', ''cc''] (\<lambda>q w. Finite (of_nat (length w))) =
     \<lparr>Likelihood = Finite 2, Word = ''aa''\<rparr> \<and>
   Finite (of_nat (length ([''b'', ''aa'', ''cc''] ! 0))) \<noteq> Finite (2::rat)"
  using SuggestWord_scan [of "''q''" "\<lambda>q w. Finite (of_nat (length w))"
      "[''b'', ''aa'', ''cc'']" "''d''"]
  by (simp add: SuggestWord_def)



text \<open>
  Claim C10. The word of the suggestion that \<open>SuggestWord\<close> returns is the empty string or
  one of the candidates; when it is not empty, the likelihood is strictly positive and is the
  similarity function applied to the query and that word.
\<close>

theorem SuggestWord_result_invariant:
  "(Word (SuggestWord q ws f) = '''' \<or> Word (SuggestWord q ws f) \<in> set ws) \<and>
   (Word (SuggestWord q ws f) \<noteq> '''' \<longrightarrow>
      f32_gt (Likelihood (SuggestWord q ws f)) (Finite 0) \<and>
      Likelihood (SuggestWord q ws f) = f q (Word (SuggestWord q ws f)))"
  using SuggestWord_cases [of q ws f] by auto

theorem SuggestWord_result_invariant_witness:
  "Word (SuggestWord ''q'' [''b'', ''aa''] (\<lambda>q w. Finite (of_nat (length w)))) \<noteq> '''' \<and>
   Word (SuggestWord ''q'' [''b'', ''aa''] (\<lambda>q w. Finite (of_nat (length w)))) \<in> set [''b'', ''aa''] \<and>
   f32_gt (Likelihood (SuggestWord ''q'' [''b'', ''aa''] (\<lambda>q w. Finite (of_nat (length w))))) (Finite 0)"
  using SuggestWord_result_invariant [of "''q''" "[''b'', ''aa'']"
      "\<lambda>q w. Finite (of_nat (length w))"]
  by (simp add: SuggestWord_def)

section \<open>The distances on concrete inputs\<close>

lemmas decode_defs = runes.simps byte_in_def accept_lo_def accept_hi_def rune_of_def RuneError_def

lemma runes_ascii_examples:
  "runes ''a||'' = [0x61, 0x7C, 0x7C]" "runes ''||'' = [0x7C, 0x7C]"
  by (simp_all add: decode_defs)

lemma runes_e_acute: "runes [CHR 0xC3, CHR 0xA9] = [0xE9]"
  by (simp add: decode_defs)

lemma runes_euro: "runes [CHR 0xE2, CHR 0x82, CHR 0xAC] = [0x20AC]"
  by (simp add: decode_defs)

lemma runes_stray: "runes [CHR 0x82, CHR 0xAC] = [0xFFFD, 0xFFFD]"
  by (simp add: decode_defs)

text \<open>
  Claim C3. On \<open>"a||"\<close> and \<open>"||"\<close> the memoized \<open>DamerauLevenshtein\<close> returns 2, while
  the recurrence gives 1 (delete the \<open>a\<close>). The cache key \<open>a + "|" + b\<close> is \<open>"|||"\<close> both
  for the pair \<open>("||", "")\<close>, stored first with value 2, and for the pair \<open>("|", "|")\<close>, which
  then reads that entry instead of computing 0.
\<close>

theorem DamerauLevenshtein_cache_collision:
  "DamerauLevenshtein ''a||'' ''||'' = 2 \<and> DamerauLevenshtein_recurrence ''a||'' ''||'' = 1"
  by (simp add: DamerauLevenshtein_def calculateDamerauLevenshteinDistance.simps Let_def)

lemma Levenshtein_example: "LevenshteinDistance ''a||'' ''||'' = 1"
  unfolding LevenshteinDistance_def DynamicLevenshtein_def runes_ascii_examples
  apply (simp add: Let_def)
  apply (simp add: matrix_set_def upt_rec)
  apply (simp add: fill_cell_def matrix_set_def)
  done

text \<open>
  Claim C4. On \<open>"a||"\<close> and \<open>"||"\<close> \<open>DamerauLevenshtein\<close> returns 2 and
  \<open>LevenshteinDistance\<close> returns 1: the Damerau-Levenshtein result is the larger one.
\<close>

theorem DamerauLevenshtein_above_Levenshtein:
  "DamerauLevenshtein ''a||'' ''||'' = 2 \<and> LevenshteinDistance ''a||'' ''||'' = 1"
  using Levenshtein_example
  by (simp add: DamerauLevenshtein_def calculateDamerauLevenshteinDistance.simps Let_def)

text \<open>
  Claim C6. \<open>DamerauLevenshtein\<close> returns 1 on \<open>("a|", "|||")\<close> and 2 on
  \<open>("|||", "a|")\<close>: it is not symmetric on strings that contain the separator of the
  cache key.
\<close>

theorem DamerauLevenshtein_not_symmetric:
  "DamerauLevenshtein ''a|'' ''|||'' = 1 \<and> DamerauLevenshtein ''|||'' ''a|'' = 2"
  by (simp add: DamerauLevenshtein_def calculateDamerauLevenshteinDistance.simps Let_def)

lemma Levenshtein_e_acute: "LevenshteinDistance [] [CHR 0xC3, CHR 0xA9] = 1"
  unfolding LevenshteinDistance_def DynamicLevenshtein_def runes_e_acute
  apply (simp add: Let_def runes.simps)
  apply (simp add: matrix_set_def upt_rec)
  done

text \<open>
  Claim C5. The string of the code point U+00E9 (bytes C3 A9) is one Unicode scalar value.
  Against the empty string \<open>LevenshteinDistance\<close> returns 1, but \<open>IndelDistance\<close> and
  \<open>DamerauLevenshtein\<close> return 2, the number of bytes, in either argument order.
\<close>

theorem empty_base_case_counts_bytes:
  "length (runes [CHR 0xC3, CHR 0xA9]) = 1 \<and>
   LevenshteinDistance [] [CHR 0xC3, CHR 0xA9] = 1 \<and>
   IndelDistance [] [CHR 0xC3, CHR 0xA9] = 2 \<and>
   IndelDistance [CHR 0xC3, CHR 0xA9] [] = 2 \<and>
   DamerauLevenshtein [] [CHR 0xC3, CHR 0xA9] = 2 \<and>
   DamerauLevenshtein [CHR 0xC3, CHR 0xA9] [] = 2"
  using Levenshtein_e_acute runes_e_acute
  by (simp add: DamerauLevenshtein_def calculateDamerauLevenshteinDistance.simps Let_def)

lemma Levenshtein_stray: "LevenshteinDistance [CHR 0xE2, CHR 0x82, CHR 0xAC] [CHR 0x82, CHR 0xAC] = 2"
  unfolding LevenshteinDistance_def DynamicLevenshtein_def runes_euro runes_stray
  apply (simp add: Let_def)
  apply (simp add: matrix_set_def upt_rec)
  apply (simp add: fill_cell_def matrix_set_def)
  done

text \<open>
  Claim C7 as stated fails on strings that are not well-formed UTF-8. The bytes E2 82 AC
  are the one rune U+20AC; without the first byte, 82 AC decode to two runes U+FFFD. One
  deletion of a byte separates the two strings, two edits separate their runes.
\<close>

theorem Indel_below_Levenshtein_ill_formed:
  "\<not> LevenshteinDistance [CHR 0xE2, CHR 0x82, CHR 0xAC] [CHR 0x82, CHR 0xAC]
       \<le> IndelDistance [CHR 0xE2, CHR 0x82, CHR 0xAC] [CHR 0x82, CHR 0xAC]"
  using Levenshtein_stray by simp

section \<open>The Levenshtein recursion and edit scripts\<close>

text \<open>
  The recursion gives the least number of edits that turn one list into the other. Edit
  scripts can be read from either end, so the distance of the reversed lists is the same,
  and the recursion may equally remove the last elements.
\<close>

lemma RecursiveLevenshtein_Nil2 [simp]: "RecursiveLevenshtein a [] = int (length a)"
  by (cases a) simp_all

lemma RecursiveLevenshtein_nonneg: "0 \<le> RecursiveLevenshtein a b"
  by (induction a b rule: RecursiveLevenshtein.induct) simp_all

lemma RecursiveLevenshtein_sym: "RecursiveLevenshtein a b = RecursiveLevenshtein b a"
  by (induction a b rule: RecursiveLevenshtein.induct) (simp_all add: min.commute min.left_commute)


lemma edits_all_Ins: "edits [] b (length b)"
  by (induction b) (auto intro: edits.intros)

lemma edits_all_Del: "edits a [] (length a)"
  by (induction a) (auto intro: edits.intros)

lemma edits_RecursiveLevenshtein: "edits a b (nat (RecursiveLevenshtein a b))"
proof (induction a b rule: RecursiveLevenshtein.induct)
  case (1 b)
  show ?case by (simp add: edits_all_Ins)
next
  case (2 x a)
  have "nat (1 + int (length a)) = Suc (length a)" by arith
  then show ?case using edits_all_Del [of "x # a"] by simp
next
  case (3 x a y b)
  show ?case
  proof (cases "x = y")
    case True
    then have "RecursiveLevenshtein (x # a) (y # b) = RecursiveLevenshtein a b" by simp
    moreover have "edits (x # a) (y # b) (nat (RecursiveLevenshtein a b))"
      using "3.IH"(1) [OF True] True by (auto intro: edits_Keep)
    ultimately show ?thesis by simp
  next
    case False
    let ?i = "RecursiveLevenshtein (x # a) b"
    let ?d = "RecursiveLevenshtein a (y # b)"
    let ?s = "RecursiveLevenshtein a b"
    have nn: "0 \<le> ?i" "0 \<le> ?d" "0 \<le> ?s" by (rule RecursiveLevenshtein_nonneg)+
    have val: "RecursiveLevenshtein (x # a) (y # b) = 1 + min ?i (min ?d ?s)"
      using False by simp
    have "min ?i (min ?d ?s) = ?i \<or> min ?i (min ?d ?s) = ?d \<or> min ?i (min ?d ?s) = ?s"
      by linarith
    then consider "min ?i (min ?d ?s) = ?i" | "min ?i (min ?d ?s) = ?d" | "min ?i (min ?d ?s) = ?s"
      by blast
    then show ?thesis
    proof cases
      case 1
      have "edits (x # a) (y # b) (Suc (nat ?i))" using "3.IH"(2) [OF False] by (rule edits_Ins)
      moreover have "nat (1 + ?i) = Suc (nat ?i)" using nn by arith
      ultimately show ?thesis using val 1 by simp
    next
      case 2
      have "edits (x # a) (y # b) (Suc (nat ?d))" using "3.IH"(3) [OF False] by (rule edits_Del)
      moreover have "nat (1 + ?d) = Suc (nat ?d)" using nn by arith
      ultimately show ?thesis using val 2 by simp
    next
      case 3
      have "edits (x # a) (y # b) (Suc (nat ?s))" using "3.IH"(4) [OF False] by (rule edits_Sub)
      moreover have "nat (1 + ?s) = Suc (nat ?s)" using nn by arith
      ultimately show ?thesis using val 3 by simp
    qed
  qed
qed

lemma edits_length: "edits a b n \<Longrightarrow> length b \<le> length a + n \<and> length a \<le> length b + n"
  by (induction rule: edits.induct) auto

lemma edits_drop_right: "edits a c m \<Longrightarrow> c = y # b \<Longrightarrow> \<exists>m'\<le>Suc m. edits a b m'"
proof (induction arbitrary: y b rule: edits.induct)
  case edits_Nil
  then show ?case by simp
next
  case (edits_Keep a c n x)
  then have "edits (x # a) b (Suc n)" by (auto intro: edits_Del)
  then show ?case by blast
next
  case (edits_Sub a c n x y')
  then have "edits (x # a) b (Suc n)" by (auto intro: edits_Del)
  then show ?case by (meson Suc_leD order_refl le_SucI)
next
  case (edits_Del a c n x)
  then obtain m' where "m' \<le> Suc n" "edits a b m'" by blast
  then have "edits (x # a) b (Suc m')" "Suc m' \<le> Suc (Suc n)" by (auto intro: edits.edits_Del)
  then show ?case by blast
next
  case (edits_Ins a c n y')
  then have "edits a b n" by simp
  then show ?case by (meson le_SucI order_refl)
qed

lemma edits_swap: "edits a b n \<Longrightarrow> edits b a n"
  by (induction rule: edits.induct) (auto intro: edits.intros)

lemma edits_drop_left:
  assumes "edits (x # a) b m"
  shows "\<exists>m'\<le>Suc m. edits a b m'"
proof -
  from assms have "edits b (x # a) m" by (rule edits_swap)
  from edits_drop_right [OF this refl]
  obtain m' where "m' \<le> Suc m" "edits b a m'" by blast
  from this(2) have "edits a b m'" by (rule edits_swap)
  with \<open>m' \<le> Suc m\<close> show ?thesis by blast
qed

lemma edits_Nil_left: "edits [] b n \<Longrightarrow> length b \<le> n"
  using edits_length [of "[]" b n] by simp

lemma edits_Nil_right: "edits a [] n \<Longrightarrow> length a \<le> n"
  using edits_length [of a "[]" n] by simp

lemma edits_Cons_Cons:
  assumes "edits (x # a) (y # b) n"
  shows "(x = y \<and> edits a b n) \<or>
         (\<exists>k. n = Suc k \<and> (edits a b k \<or> edits a (y # b) k \<or> edits (x # a) b k))"
  using assms by (cases rule: edits.cases) auto

lemma RecursiveLevenshtein_le_edits:
  "edits a b n \<Longrightarrow> RecursiveLevenshtein a b \<le> int n"
proof (induction a b arbitrary: n rule: RecursiveLevenshtein.induct)
  case (1 b)
  then show ?case using edits_Nil_left by fastforce
next
  case (2 x a)
  then show ?case using edits_Nil_right [of "x # a" n] by simp
next
  case (3 x a y b)
  from edits_Cons_Cons [OF "3.prems"]
  consider (keep) "x = y" "edits a b n"
    | (sub) k where "n = Suc k" "edits a b k"
    | (del) k where "n = Suc k" "edits a (y # b) k"
    | (ins) k where "n = Suc k" "edits (x # a) b k"
    by blast
  then show ?case
  proof cases
    case keep
    then show ?thesis using "3.IH"(1) by simp
  next
    case sub
    show ?thesis
    proof (cases "x = y")
      case True
      then show ?thesis using "3.IH"(1) [OF True sub(2)] sub(1) by simp
    next
      case False
      then show ?thesis using "3.IH"(4) [OF False sub(2)] sub(1) by simp
    qed
  next
    case del
    show ?thesis
    proof (cases "x = y")
      case True
      from edits_drop_right [OF del(2) refl] obtain m' where "m' \<le> Suc k" "edits a b m'"
        by blast
      then show ?thesis using "3.IH"(1) [OF True, of m'] True del(1) by simp
    next
      case False
      then show ?thesis using "3.IH"(3) [OF False del(2)] del(1) by simp
    qed
  next
    case ins
    show ?thesis
    proof (cases "x = y")
      case True
      from edits_drop_left [OF ins(2)] obtain m' where "m' \<le> Suc k" "edits a b m'"
        by blast
      then show ?thesis using "3.IH"(1) [OF True, of m'] True ins(1) by simp
    next
      case False
      then show ?thesis using "3.IH"(2) [OF False ins(2)] ins(1) by simp
    qed
  qed
qed

lemma edits_snoc_Keep: "edits a b n \<Longrightarrow> edits (a @ [x]) (b @ [x]) n"
  by (induction rule: edits.induct) (auto intro: edits.intros)

lemma edits_snoc_Sub: "edits a b n \<Longrightarrow> edits (a @ [x]) (b @ [y]) (Suc n)"
  by (induction rule: edits.induct) (auto intro: edits.intros)

lemma edits_snoc_Del: "edits a b n \<Longrightarrow> edits (a @ [x]) b (Suc n)"
  by (induction rule: edits.induct) (auto intro: edits.intros)

lemma edits_snoc_Ins: "edits a b n \<Longrightarrow> edits a (b @ [y]) (Suc n)"
  by (induction rule: edits.induct) (auto intro: edits.intros)

lemma edits_rev: "edits a b n \<Longrightarrow> edits (rev a) (rev b) n"
  by (induction rule: edits.induct)
    (auto intro: edits_Nil edits_snoc_Keep edits_snoc_Sub edits_snoc_Del edits_snoc_Ins)

lemma RecursiveLevenshtein_rev_le:
  "RecursiveLevenshtein (rev a) (rev b) \<le> RecursiveLevenshtein a b"
proof -
  have "edits (rev a) (rev b) (nat (RecursiveLevenshtein a b))"
    by (rule edits_rev) (rule edits_RecursiveLevenshtein)
  then have "RecursiveLevenshtein (rev a) (rev b) \<le> int (nat (RecursiveLevenshtein a b))"
    by (rule RecursiveLevenshtein_le_edits)
  then show ?thesis using RecursiveLevenshtein_nonneg [of a b] by simp
qed

lemma RecursiveLevenshtein_rev:
  "RecursiveLevenshtein (rev a) (rev b) = RecursiveLevenshtein a b"
  using RecursiveLevenshtein_rev_le [of a b] RecursiveLevenshtein_rev_le [of "rev a" "rev b"]
  by simp

lemma RecursiveLevenshtein_Cons_left:
  "RecursiveLevenshtein (x # a) b \<le> 1 + RecursiveLevenshtein a b"
proof -
  have "edits (x # a) b (Suc (nat (RecursiveLevenshtein a b)))"
    by (rule edits_Del) (rule edits_RecursiveLevenshtein)
  then have "RecursiveLevenshtein (x # a) b \<le> int (Suc (nat (RecursiveLevenshtein a b)))"
    by (rule RecursiveLevenshtein_le_edits)
  then show ?thesis using RecursiveLevenshtein_nonneg [of a b] by simp
qed

lemma RecursiveLevenshtein_Cons_right:
  "RecursiveLevenshtein a (y # b) \<le> 1 + RecursiveLevenshtein a b"
  using RecursiveLevenshtein_Cons_left [of y b a] by (simp add: RecursiveLevenshtein_sym)

lemma RecursiveLevenshtein_Cons_both:
  "RecursiveLevenshtein (x # a) (y # b) \<le> 1 + RecursiveLevenshtein a b"
  using RecursiveLevenshtein_nonneg [of a b] by (simp add: min_le_iff_disj)

section \<open>The matrix of \<open>DynamicLevenshtein\<close>\<close>

text \<open>
  The loops keep the invariant \<open>filled\<close>, so the last cell holds the value of the
  recursion on the runes of the two strings.
\<close>

lemma prefix_distance_0 [simp]:
  "prefix_distance a b 0 j = int (min j (length b))" "prefix_distance a b i 0 = int (min i (length a))"
  by (simp_all add: prefix_distance_def min.commute)

lemma prefix_distance_Suc:
  assumes "i < length a" "j < length b"
  shows "prefix_distance a b (Suc i) (Suc j) =
           (if a ! i = b ! j then prefix_distance a b i j
            else 1 + min (prefix_distance a b (Suc i) j)
                       (min (prefix_distance a b i (Suc j)) (prefix_distance a b i j)))"
  using assms by (simp add: prefix_distance_def take_Suc_conv_app_nth)

lemma prefix_distance_full:
  "prefix_distance a b (length a) (length b) = RecursiveLevenshtein a b"
  by (simp add: prefix_distance_def RecursiveLevenshtein_rev)

lemma dims_matrix_set: "dims M n m \<Longrightarrow> dims (matrix_set M i j v) n m"
  by (cases "i < length M") (auto simp: dims_def matrix_set_def nth_list_update)

lemma nth_matrix_set:
  "dims M n m \<Longrightarrow> i \<le> n \<Longrightarrow> j \<le> m \<Longrightarrow> i' \<le> n \<Longrightarrow> j' \<le> m \<Longrightarrow>
     matrix_set M i j v ! i' ! j' = (if i' = i \<and> j' = j then v else M ! i' ! j')"
  by (auto simp: dims_def matrix_set_def nth_list_update)

lemma dims_replicate: "dims (replicate (n + 1) (replicate (m + 1) 0)) n m"
proof -
  have "\<forall>i\<le>n. replicate (Suc n) (replicate (Suc m) (0::int)) ! i = replicate (Suc m) 0"
    using nth_replicate [of _ "Suc n"] by (simp del: replicate_Suc add: less_Suc_eq_le)
  then show ?thesis by (simp add: dims_def del: replicate_Suc)
qed

lemma init_column:
  "dims M n m \<Longrightarrow> k \<le> Suc n \<Longrightarrow>
     dims (fold (\<lambda>i M. matrix_set M i 0 (int i)) [0..<k] M) n m \<and>
     (\<forall>i<k. fold (\<lambda>i M. matrix_set M i 0 (int i)) [0..<k] M ! i ! 0 = int i)"
proof (induction k)
  case 0
  then show ?case by simp
next
  case (Suc k)
  let ?M = "fold (\<lambda>i M. matrix_set M i 0 (int i)) [0..<k] M"
  from Suc have d: "dims ?M n m" and old: "\<forall>i<k. ?M ! i ! 0 = int i" and k: "k \<le> n" by auto
  have "fold (\<lambda>i M. matrix_set M i 0 (int i)) [0..<Suc k] M = matrix_set ?M k 0 (int k)"
    by simp
  moreover have "dims (matrix_set ?M k 0 (int k)) n m" using d by (rule dims_matrix_set)
  moreover have "\<forall>i<Suc k. matrix_set ?M k 0 (int k) ! i ! 0 = int i"
    using old k by (auto simp: nth_matrix_set [OF d] less_Suc_eq)
  ultimately show ?case by simp
qed

lemma init_row:
  "dims M n m \<Longrightarrow> k \<le> Suc m \<Longrightarrow> \<forall>i\<le>n. M ! i ! 0 = int i \<Longrightarrow>
     dims (fold (\<lambda>j M. matrix_set M 0 j (int j)) [0..<k] M) n m \<and>
     (\<forall>i\<le>n. fold (\<lambda>j M. matrix_set M 0 j (int j)) [0..<k] M ! i ! 0 = int i) \<and>
     (\<forall>j<k. fold (\<lambda>j M. matrix_set M 0 j (int j)) [0..<k] M ! 0 ! j = int j)"
proof (induction k)
  case 0
  then show ?case by simp
next
  case (Suc k)
  let ?M = "fold (\<lambda>j M. matrix_set M 0 j (int j)) [0..<k] M"
  from Suc have d: "dims ?M n m" and col: "\<forall>i\<le>n. ?M ! i ! 0 = int i"
    and old: "\<forall>j<k. ?M ! 0 ! j = int j" and k: "k \<le> m" by auto
  have "fold (\<lambda>j M. matrix_set M 0 j (int j)) [0..<Suc k] M = matrix_set ?M 0 k (int k)"
    by simp
  moreover have "dims (matrix_set ?M 0 k (int k)) n m" using d by (rule dims_matrix_set)
  moreover have "\<forall>i\<le>n. matrix_set ?M 0 k (int k) ! i ! 0 = int i"
    using col k by (auto simp: nth_matrix_set [OF d])
  moreover have "\<forall>j<Suc k. matrix_set ?M 0 k (int k) ! 0 ! j = int j"
    using old k by (auto simp: nth_matrix_set [OF d] less_Suc_eq)
  ultimately show ?case by simp
qed

lemma filled_fill_cell:
  assumes f: "filled a b M i j" and i: "1 \<le> i" "i \<le> length a" and j: "1 \<le> j" "j \<le> length b"
  shows "filled a b (fill_cell a b i j M) i (Suc j)"
proof -
  let ?n = "length a" and ?m = "length b"
  from f have d: "dims M ?n ?m" by (simp add: filled_def)
  have val: "\<And>i' j'. i' \<le> ?n \<Longrightarrow> j' \<le> ?m \<Longrightarrow> i' = 0 \<or> j' = 0 \<or> i' < i \<or> (i' = i \<and> j' < j)
      \<Longrightarrow> M ! i' ! j' = prefix_distance a b i' j'"
    using f by (simp add: filled_def)
  obtain i0 j0 where ij: "i = Suc i0" "j = Suc j0" using i j by (cases i; cases j) auto
  have v1: "M ! i ! j0 = prefix_distance a b i j0" using val [of i j0] i j ij by simp
  have v2: "M ! i0 ! j = prefix_distance a b i0 j" using val [of i0 j] i j ij by simp
  have v3: "M ! i0 ! j0 = prefix_distance a b i0 j0" using val [of i0 j0] i j ij by simp
  have rec: "prefix_distance a b i j =
      (if a ! i0 = b ! j0 then prefix_distance a b i0 j0
       else 1 + min (prefix_distance a b i j0)
                (min (prefix_distance a b i0 j) (prefix_distance a b i0 j0)))"
    using prefix_distance_Suc [of i0 a j0 b] i j ij by simp
  have cell: "fill_cell a b i j M = matrix_set M i j (prefix_distance a b i j)"
    using v1 v2 v3 rec ij by (simp add: fill_cell_def)
  have d': "dims (fill_cell a b i j M) ?n ?m" unfolding cell using d by (rule dims_matrix_set)
  have "\<And>i' j'. i' \<le> ?n \<Longrightarrow> j' \<le> ?m \<Longrightarrow> i' = 0 \<or> j' = 0 \<or> i' < i \<or> (i' = i \<and> j' < Suc j)
      \<Longrightarrow> fill_cell a b i j M ! i' ! j' = prefix_distance a b i' j'"
  proof -
    fix i' j'
    assume b: "i' \<le> ?n" "j' \<le> ?m" and c: "i' = 0 \<or> j' = 0 \<or> i' < i \<or> (i' = i \<and> j' < Suc j)"
    show "fill_cell a b i j M ! i' ! j' = prefix_distance a b i' j'"
    proof (cases "i' = i \<and> j' = j")
      case True
      then show ?thesis unfolding cell using nth_matrix_set [OF d, of i j i' j'] i j by simp
    next
      case False
      with c have "i' = 0 \<or> j' = 0 \<or> i' < i \<or> (i' = i \<and> j' < j)" by auto
      then have "M ! i' ! j' = prefix_distance a b i' j'" using val b by blast
      then show ?thesis unfolding cell using nth_matrix_set [OF d, of i j i' j'] i j b False
        by simp
    qed
  qed
  with d' show ?thesis by (simp add: filled_def)
qed

lemma filled_row:
  assumes i: "1 \<le> i" "i \<le> length a"
  shows "k \<le> length b \<Longrightarrow> filled a b M i 1 \<Longrightarrow>
     filled a b (fold (\<lambda>j m. fill_cell a b i j m) [1..<k + 1] M) i (Suc k)"
proof (induction k)
  case 0
  then show ?case by simp
next
  case (Suc k)
  then have "filled a b (fold (\<lambda>j m. fill_cell a b i j m) [1..<k + 1] M) i (Suc k)" by simp
  then have "filled a b (fill_cell a b i (Suc k) (fold (\<lambda>j m. fill_cell a b i j m) [1..<k + 1] M))
      i (Suc (Suc k))"
    using i Suc.prems(1) by (intro filled_fill_cell) simp_all
  then show ?case by simp
qed

lemma filled_next_row:
  assumes "filled a b M i (Suc (length b))"
  shows "filled a b M (Suc i) 1"
proof -
  have "M ! i' ! j' = prefix_distance a b i' j'"
    if "i' \<le> length a" "j' \<le> length b" "i' = 0 \<or> j' = 0 \<or> i' < Suc i \<or> (i' = Suc i \<and> j' < 1)"
    for i' j'
  proof -
    from that have "i' = 0 \<or> j' = 0 \<or> i' < i \<or> (i' = i \<and> j' < Suc (length b))" by auto
    with assms that(1,2) show ?thesis unfolding filled_def by blast
  qed
  with assms show ?thesis unfolding filled_def by blast
qed

lemma filled_rows:
  "k \<le> length a \<Longrightarrow> filled a b M 1 1 \<Longrightarrow>
     filled a b (fold (\<lambda>i m. fold (\<lambda>j m. fill_cell a b i j m) [1..<length b + 1] m)
                   [1..<k + 1] M) (Suc k) 1"
proof (induction k)
  case 0
  then show ?case by simp
next
  case (Suc k)
  let ?M = "fold (\<lambda>i m. fold (\<lambda>j m. fill_cell a b i j m) [1..<length b + 1] m) [1..<k + 1] M"
  from Suc have "filled a b ?M (Suc k) 1" by simp
  then have "filled a b (fold (\<lambda>j m. fill_cell a b (Suc k) j m) [1..<length b + 1] ?M)
      (Suc k) (Suc (length b))"
    using Suc.prems(1) by (intro filled_row) simp_all
  then have "filled a b (fold (\<lambda>j m. fill_cell a b (Suc k) j m) [1..<length b + 1] ?M)
      (Suc (Suc k)) 1"
    by (rule filled_next_row)
  then show ?case by simp
qed

lemma filled_init:
  "filled a b
     (fold (\<lambda>j m. matrix_set m 0 j (int j)) [0..<length b + 1]
        (fold (\<lambda>i m. matrix_set m i 0 (int i)) [0..<length a + 1]
           (replicate (length a + 1) (replicate (length b + 1) 0)))) 1 1"
proof -
  let ?M0 = "replicate (length a + 1) (replicate (length b + 1) (0::int))"
  let ?M1 = "fold (\<lambda>i m. matrix_set m i 0 (int i)) [0..<length a + 1] ?M0"
  let ?M2 = "fold (\<lambda>j m. matrix_set m 0 j (int j)) [0..<length b + 1] ?M1"
  have 1: "dims ?M1 (length a) (length b)" "\<forall>i\<le>length a. ?M1 ! i ! 0 = int i"
    using init_column [OF dims_replicate, of "Suc (length a)" "length a" "length b"]
    by (simp_all add: less_Suc_eq_le)
  have 2: "dims ?M2 (length a) (length b)" "\<forall>i\<le>length a. ?M2 ! i ! 0 = int i"
      "\<forall>j\<le>length b. ?M2 ! 0 ! j = int j"
    using init_row [OF 1(1) _ 1(2), of "Suc (length b)"] by (simp_all add: less_Suc_eq_le)
  show ?thesis unfolding filled_def using 2 by auto
qed

lemma DynamicLevenshtein_runes:
  "DynamicLevenshtein inputString targetString =
     RecursiveLevenshtein (runes inputString) (runes targetString)"
proof -
  let ?a = "runes inputString" and ?b = "runes targetString"
  let ?M2 = "fold (\<lambda>j m. matrix_set m 0 j (int j)) [0..<length ?b + 1]
        (fold (\<lambda>i m. matrix_set m i 0 (int i)) [0..<length ?a + 1]
           (replicate (length ?a + 1) (replicate (length ?b + 1) 0)))"
  let ?M3 = "fold (\<lambda>i m. fold (\<lambda>j m. fill_cell ?a ?b i j m) [1..<length ?b + 1] m)
                   [1..<length ?a + 1] ?M2"
  have "filled ?a ?b ?M3 (Suc (length ?a)) 1"
    by (rule filled_rows [OF order_refl filled_init])
  then have "?M3 ! length ?a ! length ?b = prefix_distance ?a ?b (length ?a) (length ?b)"
    by (simp add: filled_def)
  then show ?thesis by (simp add: DynamicLevenshtein_def Let_def prefix_distance_full)
qed

section \<open>Well-formed UTF-8: Levenshtein on runes and Indel on bytes\<close>

text \<open>
  A well-formed string is a concatenation of sequences, each decoded to one rune that
  determines it. On such strings a rune edit costs at most what the byte edits cost.
\<close>

lemma head_cases:
  assumes "well_formed_head s"
  obtains l t r where "s = l # t @ r" "length t = tail_length l" "\<not> continuation l"
    "\<forall>x\<in>set t. continuation x"
    "\<And>r'. DecodeRuneInString (l # t @ r') = (fst (DecodeRuneInString (l # t)), Suc (length t))"
    "\<And>r'. well_formed_head (l # t @ r')"
proof -
  from assms obtain l s' where s: "s = l # s'" by (cases s) (auto simp: well_formed_head_def)
  consider (one) "byte_in 0x00 0x7F l"
    | (two) "\<not> byte_in 0x00 0x7F l" "byte_in 0xC2 0xDF l"
    | (three) "\<not> byte_in 0x00 0x7F l" "\<not> byte_in 0xC2 0xDF l" "byte_in 0xE0 0xEF l"
    | (four) "\<not> byte_in 0x00 0x7F l" "\<not> byte_in 0xC2 0xDF l" "\<not> byte_in 0xE0 0xEF l"
        "byte_in 0xF0 0xF4 l"
    | (bad) "\<not> byte_in 0x00 0x7F l" "\<not> byte_in 0xC2 0xDF l" "\<not> byte_in 0xE0 0xEF l"
        "\<not> byte_in 0xF0 0xF4 l"
    by blast
  then show ?thesis
  proof cases
    case one
    show ?thesis
    proof (rule that [of l "[]" s'])
      show "s = l # [] @ s'" using s by simp
      show "length [] = tail_length l" using one by (simp add: tail_length_def)
      show "\<not> continuation l" using one by (auto simp: continuation_def byte_in_def)
      show "\<forall>x\<in>set []. continuation x" by simp
      show "\<And>r'. DecodeRuneInString (l # [] @ r') = (fst (DecodeRuneInString (l # [])), Suc (length []))"
        using one by simp
      show "\<And>r'. well_formed_head (l # [] @ r')" using one by (simp add: well_formed_head_def)
    qed
  next
    case two
    from assms s two obtain s1 r where s': "s' = s1 # r"
      and ok: "byte_in (accept_lo l) (accept_hi l) s1"
      by (cases s') (auto simp: well_formed_head_def split: if_splits)
    show ?thesis
    proof (rule that [of l "[s1]" r])
      show "s = l # [s1] @ r" using s s' by simp
      show "length [s1] = tail_length l" using two by (simp add: tail_length_def)
      show "\<not> continuation l" using two by (auto simp: continuation_def byte_in_def)
      show "\<forall>x\<in>set [s1]. continuation x"
        using ok by (auto simp: continuation_def byte_in_def accept_lo_def accept_hi_def split: if_splits)
      show "\<And>r'. DecodeRuneInString (l # [s1] @ r') = (fst (DecodeRuneInString (l # [s1])), Suc (length [s1]))"
        using two ok by simp
      show "\<And>r'. well_formed_head (l # [s1] @ r')" using two ok by (simp add: well_formed_head_def)
    qed
  next
    case three
    from assms s three obtain s1 s2 r where s': "s' = s1 # s2 # r"
      and ok: "byte_in (accept_lo l) (accept_hi l) s1" "byte_in 0x80 0xBF s2"
      by (cases s'; cases "tl s'") (auto simp: well_formed_head_def split: if_splits)
    show ?thesis
    proof (rule that [of l "[s1, s2]" r])
      show "s = l # [s1, s2] @ r" using s s' by simp
      show "length [s1, s2] = tail_length l" using three by (simp add: tail_length_def)
      show "\<not> continuation l" using three by (auto simp: continuation_def byte_in_def)
      show "\<forall>x\<in>set [s1, s2]. continuation x"
        using ok by (auto simp: continuation_def byte_in_def accept_lo_def accept_hi_def split: if_splits)
      show "\<And>r'. DecodeRuneInString (l # [s1, s2] @ r') = (fst (DecodeRuneInString (l # [s1, s2])), Suc (length [s1, s2]))"
        using three ok by simp
      show "\<And>r'. well_formed_head (l # [s1, s2] @ r')" using three ok by (simp add: well_formed_head_def)
    qed
  next
    case four
    from assms s four obtain s1 s2 s3 r where s': "s' = s1 # s2 # s3 # r"
      and ok: "byte_in (accept_lo l) (accept_hi l) s1" "byte_in 0x80 0xBF s2" "byte_in 0x80 0xBF s3"
      by (cases s'; cases "tl s'"; cases "tl (tl s')") (auto simp: well_formed_head_def split: if_splits)
    show ?thesis
    proof (rule that [of l "[s1, s2, s3]" r])
      show "s = l # [s1, s2, s3] @ r" using s s' by simp
      show "length [s1, s2, s3] = tail_length l" using four by (simp add: tail_length_def)
      show "\<not> continuation l" using four by (auto simp: continuation_def byte_in_def)
      show "\<forall>x\<in>set [s1, s2, s3]. continuation x"
        using ok by (auto simp: continuation_def byte_in_def accept_lo_def accept_hi_def split: if_splits)
      show "\<And>r'. DecodeRuneInString (l # [s1, s2, s3] @ r') = (fst (DecodeRuneInString (l # [s1, s2, s3])), Suc (length [s1, s2, s3]))"
        using four ok by simp
      show "\<And>r'. well_formed_head (l # [s1, s2, s3] @ r')" using four ok by (simp add: well_formed_head_def)
    qed
  next
    case bad
    with assms s have False by (simp add: well_formed_head_def)
    then show ?thesis ..
  qed
qed

lemma sequence_cases:
  assumes "sequence c"
  obtains l t where "c = l # t" "length t = tail_length l" "\<not> continuation l"
    "\<forall>x\<in>set t. continuation x"
    "\<And>r. DecodeRuneInString (c @ r) = (decoded c, length c)"
proof -
  from assms have h: "well_formed_head c" and len: "length c = Suc (tail_length (hd c))"
    by (simp_all add: sequence_def)
  from h obtain l t r where c: "c = l # t @ r" "length t = tail_length l" "\<not> continuation l"
    "\<forall>x\<in>set t. continuation x"
    and dec: "\<And>r'. DecodeRuneInString (l # t @ r') = (fst (DecodeRuneInString (l # t)), Suc (length t))"
    by (rule head_cases) blast
  from c len have "r = []" by simp
  with c have c': "c = l # t" by simp
  show ?thesis
  proof (rule that [of l t])
    show "c = l # t" by (rule c')
    show "length t = tail_length l" by (rule c(2))
    show "\<not> continuation l" by (rule c(3))
    show "\<forall>x\<in>set t. continuation x" by (rule c(4))
    show "\<And>r. DecodeRuneInString (c @ r) = (decoded c, length c)"
      using dec c' by (simp add: decoded_def)
  qed
qed

lemma sequence_nonempty: "sequence c \<Longrightarrow> c \<noteq> []"
  by (erule sequence_cases) simp

lemma runes_sequence: "sequence c \<Longrightarrow> runes (c @ r) = decoded c # runes r"
proof -
  assume s: "sequence c"
  then obtain l t where c: "c = l # t" and dec: "DecodeRuneInString (c @ r) = (decoded c, length c)"
    by (rule sequence_cases) blast
  have "c @ r \<noteq> []" using c by simp
  then have "runes (c @ r) = fst (DecodeRuneInString (c @ r)) #
      runes (drop (snd (DecodeRuneInString (c @ r))) (c @ r))"
    by (subst runes.simps) simp
  then show ?thesis by (simp add: dec)
qed

lemma runes_concat: "\<forall>c\<in>set cs. sequence c \<Longrightarrow> runes (concat cs) = map decoded cs"
proof (induction cs)
  case Nil
  show ?case by (simp add: runes.simps)
next
  case (Cons c cs)
  then show ?case by (simp add: runes_sequence)
qed

lemma well_formed_utf8_sequences:
  "well_formed_utf8 s \<Longrightarrow> \<exists>cs. s = concat cs \<and> (\<forall>c\<in>set cs. sequence c)"
proof (induction s rule: well_formed_utf8.induct)
  case (1 s)
  show ?case
  proof (cases "s = []")
    case True
    then have "s = concat []" "\<forall>c\<in>set []. sequence c" by simp_all
    then show ?thesis by blast
  next
    case False
    with "1.prems" have h: "well_formed_head s"
      and rest: "well_formed_utf8 (drop (snd (DecodeRuneInString s)) s)"
      by (simp_all add: well_formed_utf8.simps [of s])
    from h obtain l t r where s: "s = l # t @ r" "length t = tail_length l"
      and dec: "\<And>r'. DecodeRuneInString (l # t @ r') = (fst (DecodeRuneInString (l # t)), Suc (length t))"
      and wf: "\<And>r'. well_formed_head (l # t @ r')"
      by (rule head_cases) blast
    have w: "snd (DecodeRuneInString s) = Suc (length t)" using dec [of r] s(1) by simp
    then have "drop (snd (DecodeRuneInString s)) s = r" using s(1) by simp
    with "1.IH" [OF False] rest obtain cs where cs: "r = concat cs" "\<forall>c\<in>set cs. sequence c"
      by auto
    have "sequence (l # t)" using wf [of "[]"] s(2) by (simp add: sequence_def)
    with cs s(1) have "s = concat ((l # t) # cs)" "\<forall>c\<in>set ((l # t) # cs). sequence c"
      by simp_all
    then show ?thesis by blast
  qed
qed

lemma IndelDistance_Nil2 [simp]: "IndelDistance a [] = int (length a)"
  by (cases a) simp_all

lemma length_concat_sequences: "\<forall>c\<in>set cs. sequence c \<Longrightarrow> length cs \<le> length (concat cs)"
proof (induction cs)
  case Nil
  show ?case by simp
next
  case (Cons c cs)
  then have "c \<noteq> []" by (simp add: sequence_nonempty)
  then have "1 \<le> length c" by (cases c) simp_all
  with Cons show ?case by simp
qed

lemma IndelDistance_Cons_neq:
  "x \<noteq> y \<Longrightarrow> IndelDistance (x # a) (y # b) =
     min (1 + IndelDistance a (y # b)) (1 + IndelDistance (x # a) b)"
  by (simp add: Let_def)

lemma Levenshtein_le_Indel_X:
  assumes IHX: "\<And>u v as bs. length (u @ concat as) + length (v @ concat bs) < n \<Longrightarrow>
        list_all sequence as \<Longrightarrow> list_all sequence bs \<Longrightarrow>
        list_all continuation u \<Longrightarrow> list_all continuation v \<Longrightarrow>
        RecursiveLevenshtein (map decoded as) (map decoded bs)
          \<le> IndelDistance (u @ concat as) (v @ concat bs)"
    and IHY: "\<And>p u v as bs. length (u @ concat as) + length (v @ concat bs) < n \<Longrightarrow>
        p \<noteq> [] \<Longrightarrow> sequence (p @ u) \<Longrightarrow> sequence (p @ v) \<Longrightarrow>
        list_all sequence as \<Longrightarrow> list_all sequence bs \<Longrightarrow>
        RecursiveLevenshtein (decoded (p @ u) # map decoded as) (decoded (p @ v) # map decoded bs)
          \<le> IndelDistance (u @ concat as) (v @ concat bs)"
    and n: "length (u @ concat as) + length (v @ concat bs) = n"
    and sa: "list_all sequence as" and sb: "list_all sequence bs"
    and cu: "list_all continuation u" and cv: "list_all continuation v"
  shows "RecursiveLevenshtein (map decoded as) (map decoded bs)
           \<le> IndelDistance (u @ concat as) (v @ concat bs)"
proof -
  let ?L = RecursiveLevenshtein and ?I = IndelDistance
  let ?rs = "map decoded as" and ?ss = "map decoded bs"
  have la: "length as \<le> length (concat as)" and lb: "length bs \<le> length (concat bs)"
    using sa sb by (simp_all add: length_concat_sequences list_all_iff)
  consider (Ue) "u = []" "as = []"
    | (Ve) "v = []" "bs = []"
    | (cc) c u' d v' where "u = c # u'" "v = d # v'"
    | (cl) c u' l t bs' where "u = c # u'" "v = []" "bs = (l # t) # bs'"
    | (lc) l t as' d v' where "u = []" "as = (l # t) # as'" "v = d # v'"
    | (ll) l1 t1 as' l2 t2 bs' where "u = []" "as = (l1 # t1) # as'" "v = []" "bs = (l2 # t2) # bs'"
  proof -
    have A: "(u = [] \<and> as = []) \<or> (\<exists>c u'. u = c # u') \<or> (\<exists>l t as'. u = [] \<and> as = (l # t) # as')"
      using sa by (cases u; cases as) (auto dest: sequence_nonempty simp: neq_Nil_conv)
    have B: "(v = [] \<and> bs = []) \<or> (\<exists>c v'. v = c # v') \<or> (\<exists>l t bs'. v = [] \<and> bs = (l # t) # bs')"
      using sb by (cases v; cases bs) (auto dest: sequence_nonempty simp: neq_Nil_conv)
    from A B that show ?thesis by blast
  qed
  then show ?thesis
  proof cases
    case Ue
    then show ?thesis using lb by simp
  next
    case Ve
    then show ?thesis using la by simp
  next
    case cc
    have cu': "list_all continuation u'" and cv': "list_all continuation v'"
      using cu cv cc by simp_all
    show ?thesis
    proof (cases "c = d")
      case True
      have "?L ?rs ?ss \<le> ?I (u' @ concat as) (v' @ concat bs)"
        using n cc by (intro IHX sa sb cu' cv') simp
      then show ?thesis using cc True by simp
    next
      case False
      have 1: "?L ?rs ?ss \<le> ?I (u' @ concat as) (v @ concat bs)"
        using n cc by (intro IHX sa sb cu' cv) simp
      have 2: "?L ?rs ?ss \<le> ?I (u @ concat as) (v' @ concat bs)"
        using n cc by (intro IHX sa sb cu cv') simp
      have "?I (u @ concat as) (v @ concat bs) =
          min (1 + ?I (u' @ concat as) (v @ concat bs)) (1 + ?I (u @ concat as) (v' @ concat bs))"
        using cc False by (simp add: IndelDistance_Cons_neq)
      with 1 2 show ?thesis by simp
    qed
  next
    case cl
    have cu': "list_all continuation u'" using cu cl by simp
    have sq: "sequence (l # t)" and sb': "list_all sequence bs'" using sb cl by simp_all
    from sq have nl: "\<not> continuation l" and ct: "list_all continuation t"
      by (auto elim!: sequence_cases simp: list_all_iff)
    have cont_c: "continuation c" using cu cl by simp
    with nl have ne: "c \<noteq> l" by auto
    have 1: "?L ?rs ?ss \<le> ?I (u' @ concat as) (v @ concat bs)"
      using n cl by (intro IHX sa sb cu' cv) simp
    have "?L ?rs (map decoded bs') \<le> ?I (u @ concat as) (t @ concat bs')"
      using n cl by (intro IHX sa sb' cu ct) simp
    moreover have "?L ?rs ?ss \<le> 1 + ?L ?rs (map decoded bs')"
      using cl RecursiveLevenshtein_Cons_right [of ?rs "decoded (l # t)" "map decoded bs'"] by simp
    ultimately have 2: "?L ?rs ?ss \<le> 1 + ?I (u @ concat as) (t @ concat bs')" by simp
    have "?I (u @ concat as) (v @ concat bs) =
        min (1 + ?I (u' @ concat as) (v @ concat bs)) (1 + ?I (u @ concat as) (t @ concat bs'))"
      using cl ne by (simp add: IndelDistance_Cons_neq)
    with 1 2 show ?thesis by simp
  next
    case lc
    have cv': "list_all continuation v'" using cv lc by simp
    have sq: "sequence (l # t)" and sa': "list_all sequence as'" using sa lc by simp_all
    from sq have nl: "\<not> continuation l" and ct: "list_all continuation t"
      by (auto elim!: sequence_cases simp: list_all_iff)
    have cont_d: "continuation d" using cv lc by simp
    with nl have ne: "l \<noteq> d" by auto
    have 2: "?L ?rs ?ss \<le> ?I (u @ concat as) (v' @ concat bs)"
      using n lc by (intro IHX sa sb cu cv') simp
    have "?L (map decoded as') ?ss \<le> ?I (t @ concat as') (v @ concat bs)"
      using n lc by (intro IHX sa' sb ct cv) simp
    moreover have "?L ?rs ?ss \<le> 1 + ?L (map decoded as') ?ss"
      using lc RecursiveLevenshtein_Cons_left [of "decoded (l # t)" "map decoded as'" ?ss] by simp
    ultimately have 1: "?L ?rs ?ss \<le> 1 + ?I (t @ concat as') (v @ concat bs)" by simp
    have "?I (u @ concat as) (v @ concat bs) =
        min (1 + ?I (t @ concat as') (v @ concat bs)) (1 + ?I (u @ concat as) (v' @ concat bs))"
      using lc ne by (simp add: IndelDistance_Cons_neq)
    with 1 2 show ?thesis by simp
  next
    case ll
    have sq1: "sequence (l1 # t1)" and sa': "list_all sequence as'" using sa ll by simp_all
    have sq2: "sequence (l2 # t2)" and sb': "list_all sequence bs'" using sb ll by simp_all
    from sq1 have ct1: "list_all continuation t1"
      by (auto elim!: sequence_cases simp: list_all_iff)
    from sq2 have ct2: "list_all continuation t2"
      by (auto elim!: sequence_cases simp: list_all_iff)
    show ?thesis
    proof (cases "l1 = l2")
      case True
      have "?L (decoded ([l1] @ t1) # map decoded as') (decoded ([l1] @ t2) # map decoded bs')
          \<le> ?I (t1 @ concat as') (t2 @ concat bs')"
        using n ll sq1 sq2 True by (intro IHY sa' sb') simp_all
      then show ?thesis using ll True by simp
    next
      case False
      have "?L (map decoded as') ?ss \<le> ?I (t1 @ concat as') (v @ concat bs)"
        using n ll by (intro IHX sa' sb ct1 cv) simp
      moreover have "?L ?rs ?ss \<le> 1 + ?L (map decoded as') ?ss"
        using ll RecursiveLevenshtein_Cons_left [of "decoded (l1 # t1)" "map decoded as'" ?ss]
        by simp
      ultimately have 1: "?L ?rs ?ss \<le> 1 + ?I (t1 @ concat as') (v @ concat bs)" by simp
      have "?L ?rs (map decoded bs') \<le> ?I (u @ concat as) (t2 @ concat bs')"
        using n ll by (intro IHX sa sb' cu ct2) simp
      moreover have "?L ?rs ?ss \<le> 1 + ?L ?rs (map decoded bs')"
        using ll RecursiveLevenshtein_Cons_right [of ?rs "decoded (l2 # t2)" "map decoded bs'"]
        by simp
      ultimately have 2: "?L ?rs ?ss \<le> 1 + ?I (u @ concat as) (t2 @ concat bs')" by simp
      have "?I (u @ concat as) (v @ concat bs) =
          min (1 + ?I (t1 @ concat as') (v @ concat bs)) (1 + ?I (u @ concat as) (t2 @ concat bs'))"
        using ll False by (simp add: IndelDistance_Cons_neq)
      with 1 2 show ?thesis by simp
    qed
  qed
qed

lemma Levenshtein_le_Indel_Y:
  assumes IHX: "\<And>u v as bs. length (u @ concat as) + length (v @ concat bs) \<le> n \<Longrightarrow>
        list_all sequence as \<Longrightarrow> list_all sequence bs \<Longrightarrow>
        list_all continuation u \<Longrightarrow> list_all continuation v \<Longrightarrow>
        RecursiveLevenshtein (map decoded as) (map decoded bs)
          \<le> IndelDistance (u @ concat as) (v @ concat bs)"
    and IHY: "\<And>p u v as bs. length (u @ concat as) + length (v @ concat bs) < n \<Longrightarrow>
        p \<noteq> [] \<Longrightarrow> sequence (p @ u) \<Longrightarrow> sequence (p @ v) \<Longrightarrow>
        list_all sequence as \<Longrightarrow> list_all sequence bs \<Longrightarrow>
        RecursiveLevenshtein (decoded (p @ u) # map decoded as) (decoded (p @ v) # map decoded bs)
          \<le> IndelDistance (u @ concat as) (v @ concat bs)"
    and n: "length (u @ concat as) + length (v @ concat bs) = n"
    and p: "p \<noteq> []" and su: "sequence (p @ u)" and sv: "sequence (p @ v)"
    and sa: "list_all sequence as" and sb: "list_all sequence bs"
  shows "RecursiveLevenshtein (decoded (p @ u) # map decoded as) (decoded (p @ v) # map decoded bs)
           \<le> IndelDistance (u @ concat as) (v @ concat bs)"
proof -
  let ?L = RecursiveLevenshtein and ?I = IndelDistance
  let ?rs = "map decoded as" and ?ss = "map decoded bs"
  from p obtain l p' where pl: "p = l # p'" by (cases p) auto
  from su pl have lu: "length (p' @ u) = tail_length l" and cu: "list_all continuation (p' @ u)"
    by (auto elim!: sequence_cases simp: list_all_iff)
  from sv pl have lv: "length (p' @ v) = tail_length l" and cv: "list_all continuation (p' @ v)"
    by (auto elim!: sequence_cases simp: list_all_iff)
  from lu lv have len: "length u = length v" by simp
  from cu cv have cu': "list_all continuation u" and cv': "list_all continuation v" by simp_all
  show ?thesis
  proof (cases u)
    case Nil
    with len have v: "v = []" by simp
    have "?L ?rs ?ss \<le> ?I (u @ concat as) (v @ concat bs)"
      using n by (intro IHX sa sb cu' cv') simp
    then show ?thesis using Nil v by simp
  next
    case (Cons c u')
    with len obtain d v' where v: "v = d # v'" by (cases v) auto
    show ?thesis
    proof (cases "c = d")
      case True
      have "?L (decoded ((p @ [c]) @ u') # ?rs) (decoded ((p @ [c]) @ v') # ?ss)
          \<le> ?I (u' @ concat as) (v' @ concat bs)"
        using n Cons v su sv True by (intro IHY sa sb) simp_all
      then show ?thesis using Cons v True by simp
    next
      case False
      have cu'': "list_all continuation u'" and cv'': "list_all continuation v'"
        using cu' cv' Cons v by simp_all
      have 1: "?L ?rs ?ss \<le> ?I (u' @ concat as) (v @ concat bs)"
        using n Cons by (intro IHX sa sb cu'' cv') simp
      have 2: "?L ?rs ?ss \<le> ?I (u @ concat as) (v' @ concat bs)"
        using n v by (intro IHX sa sb cu' cv'') simp
      have "?I (u @ concat as) (v @ concat bs) =
          min (1 + ?I (u' @ concat as) (v @ concat bs)) (1 + ?I (u @ concat as) (v' @ concat bs))"
        using Cons v False by (simp add: IndelDistance_Cons_neq)
      with 1 2 have "1 + ?L ?rs ?ss \<le> ?I (u @ concat as) (v @ concat bs)" by simp
      moreover have "?L (decoded (p @ u) # ?rs) (decoded (p @ v) # ?ss) \<le> 1 + ?L ?rs ?ss"
        by (rule RecursiveLevenshtein_Cons_both)
      ultimately show ?thesis by simp
    qed
  qed
qed

lemma Levenshtein_le_Indel_sequences:
  "(\<forall>u v as bs. length (u @ concat as) + length (v @ concat bs) = n \<longrightarrow>
        list_all sequence as \<longrightarrow> list_all sequence bs \<longrightarrow>
        list_all continuation u \<longrightarrow> list_all continuation v \<longrightarrow>
        RecursiveLevenshtein (map decoded as) (map decoded bs)
          \<le> IndelDistance (u @ concat as) (v @ concat bs)) \<and>
   (\<forall>p u v as bs. length (u @ concat as) + length (v @ concat bs) = n \<longrightarrow>
        p \<noteq> [] \<longrightarrow> sequence (p @ u) \<longrightarrow> sequence (p @ v) \<longrightarrow>
        list_all sequence as \<longrightarrow> list_all sequence bs \<longrightarrow>
        RecursiveLevenshtein (decoded (p @ u) # map decoded as) (decoded (p @ v) # map decoded bs)
          \<le> IndelDistance (u @ concat as) (v @ concat bs))"
proof (induction n rule: less_induct)
  case (less n)
  have IHX: "RecursiveLevenshtein (map decoded as) (map decoded bs)
          \<le> IndelDistance (u @ concat as) (v @ concat bs)"
    if "length (u @ concat as) + length (v @ concat bs) < n"
      "list_all sequence as" "list_all sequence bs"
      "list_all continuation u" "list_all continuation v" for u v as bs
    using less.IH [OF that(1)] that(2-) by blast
  have IHY: "RecursiveLevenshtein (decoded (p @ u) # map decoded as) (decoded (p @ v) # map decoded bs)
          \<le> IndelDistance (u @ concat as) (v @ concat bs)"
    if "length (u @ concat as) + length (v @ concat bs) < n"
      "p \<noteq> []" "sequence (p @ u)" "sequence (p @ v)"
      "list_all sequence as" "list_all sequence bs" for p u v as bs
    using less.IH [OF that(1)] that(2-) by blast
  have X: "RecursiveLevenshtein (map decoded as) (map decoded bs)
          \<le> IndelDistance (u @ concat as) (v @ concat bs)"
    if "length (u @ concat as) + length (v @ concat bs) = n"
      "list_all sequence as" "list_all sequence bs"
      "list_all continuation u" "list_all continuation v" for u v as bs
    using IHX IHY that by (rule Levenshtein_le_Indel_X)
  have X': "RecursiveLevenshtein (map decoded as) (map decoded bs)
          \<le> IndelDistance (u @ concat as) (v @ concat bs)"
    if "length (u @ concat as) + length (v @ concat bs) \<le> n"
      "list_all sequence as" "list_all sequence bs"
      "list_all continuation u" "list_all continuation v" for u v as bs
    using IHX [OF _ that(2-)] X [OF _ that(2-)] that(1) by (cases "length (u @ concat as) + length (v @ concat bs) = n") auto
  have Y: "RecursiveLevenshtein (decoded (p @ u) # map decoded as) (decoded (p @ v) # map decoded bs)
          \<le> IndelDistance (u @ concat as) (v @ concat bs)"
    if "length (u @ concat as) + length (v @ concat bs) = n"
      "p \<noteq> []" "sequence (p @ u)" "sequence (p @ v)"
      "list_all sequence as" "list_all sequence bs" for p u v as bs
    using X' IHY that by (rule Levenshtein_le_Indel_Y)
  show ?case using X Y by blast
qed

lemma Levenshtein_le_Indel_well_formed:
  assumes "well_formed_utf8 a" "well_formed_utf8 b"
  shows "RecursiveLevenshtein (runes a) (runes b) \<le> IndelDistance a b"
proof -
  from assms obtain as bs where a: "a = concat as" "\<forall>c\<in>set as. sequence c"
    and b: "b = concat bs" "\<forall>c\<in>set bs. sequence c"
    using well_formed_utf8_sequences by blast
  define n where "n = length ([] @ concat as) + length ([] @ concat bs)"
  have "\<forall>u v as bs. length (u @ concat as) + length (v @ concat bs) = n \<longrightarrow>
        list_all sequence as \<longrightarrow> list_all sequence bs \<longrightarrow>
        list_all continuation u \<longrightarrow> list_all continuation v \<longrightarrow>
        RecursiveLevenshtein (map decoded as) (map decoded bs)
          \<le> IndelDistance (u @ concat as) (v @ concat bs)"
    using Levenshtein_le_Indel_sequences [of n] by (rule conjunct1)
  moreover have "list_all sequence as" "list_all sequence bs"
    using a(2) b(2) by (simp_all add: list_all_iff)
  moreover have "list_all continuation []" by simp
  ultimately have "RecursiveLevenshtein (map decoded as) (map decoded bs)
      \<le> IndelDistance ([] @ concat as) ([] @ concat bs)"
    using n_def by blast
  then show ?thesis using a b by (simp add: runes_concat)
qed

text \<open>
  Claim C7, as amended. For every pair of strings that are well-formed UTF-8,
  \<open>IndelDistance(a, b) \<ge> LevenshteinDistance(a, b)\<close>: the first counts insertions and
  deletions of bytes, the second edits of decoded runes.
\<close>

theorem Indel_ge_Levenshtein_well_formed:
  "well_formed_utf8 a \<Longrightarrow> well_formed_utf8 b \<Longrightarrow> LevenshteinDistance a b \<le> IndelDistance a b"
  by (simp add: LevenshteinDistance_def DynamicLevenshtein_runes Levenshtein_le_Indel_well_formed)

theorem Indel_ge_Levenshtein_well_formed_witness:
  "well_formed_utf8 [CHR 0xC3, CHR 0xA9, CHR ''a''] \<and> well_formed_utf8 [CHR 0xE2, CHR 0x82, CHR 0xAC] \<and>
   LevenshteinDistance [CHR 0xC3, CHR 0xA9, CHR ''a''] [CHR 0xE2, CHR 0x82, CHR 0xAC]
     \<le> IndelDistance [CHR 0xC3, CHR 0xA9, CHR ''a''] [CHR 0xE2, CHR 0x82, CHR 0xAC]"
proof -
  have 1: "well_formed_utf8 [CHR 0xC3, CHR 0xA9, CHR ''a'']"
    by (simp add: well_formed_utf8.simps well_formed_head_def byte_in_def accept_lo_def accept_hi_def)
  have 2: "well_formed_utf8 [CHR 0xE2, CHR 0x82, CHR 0xAC]"
    by (simp add: well_formed_utf8.simps well_formed_head_def byte_in_def accept_lo_def accept_hi_def)
  from Indel_ge_Levenshtein_well_formed [OF 1 2] 1 2 show ?thesis by simp
qed

section \<open>Rounding to \<open>float32\<close>\<close>

























section \<open>The loops of \<open>JaroSimilarity\<close>\<close>

text \<open>
  The marker of \<open>calculateTranspositions\<close> never leaves the array: as many marks remain
  in the target array as in the input array.
\<close>

lemma marks_Nil [simp]: "marks [] = 0"
  by (simp add: marks_def)

lemma marks_Cons [simp]: "marks (v # m) = (if v \<noteq> 0 then Suc (marks m) else marks m)"
  by (simp add: marks_def)

lemma marks_append [simp]: "marks (m @ m') = marks m + marks m'"
  by (simp add: marks_def)












section \<open>The similarities lie between 0 and 1\<close>














subsection \<open>Bounds of the distances\<close>


















section \<open>The example of the documentation\<close>

lemma Jaro_almni:
  "JaroSimilarity ''almni'' ''hi'' = Some (Finite 0)"
  "JaroSimilarity ''almni'' ''hello'' = Some (Finite (15658735 / 33554432))"
  "JaroSimilarity ''almni'' ''bonjour'' = Some (Finite (15019603 / 33554432))"
  "JaroSimilarity ''almni'' ''alumni'' = Some (Finite (3961287 / 4194304))"
  by code_simp+

text \<open>
  Claim C9. For the query \<open>"almni"\<close>, the candidates \<open>"hi"\<close>, \<open>"hello"\<close>,
  \<open>"bonjour"\<close>, \<open>"alumni"\<close> and the Jaro similarity, \<open>SuggestWord\<close> returns the word
  \<open>"alumni"\<close> with the \<open>float32\<close> nearest to \<open>17/18\<close>, within \<open>0.001\<close> of
  \<open>0.944\<close>.
\<close>

theorem SuggestWord_almni:
  "SuggestWord ''almni'' [''hi'', ''hello'', ''bonjour'', ''alumni''] JaroSimilarity_value =
     \<lparr>Likelihood = Finite (3961287 / 4194304), Word = ''alumni''\<rparr> \<and>
   \<bar>3961287 / 4194304 - 944 / 1000\<bar> \<le> (1 / 1000 :: rat)"
  by (simp add: SuggestWord_def JaroSimilarity_value_def Jaro_almni)

section \<open>Base cases, symmetry, and the cache without the separator\<close>

text \<open>
  Facts that hold in general: the distance from the empty string, the symmetry of
  \<open>LevenshteinDistance\<close> and \<open>IndelDistance\<close>, and the agreement of
  \<open>DamerauLevenshtein\<close> with the recurrence when neither string holds the separator
  \<open>|\<close> of the cache keys.
\<close>

lemma runes_Nil [simp]: "runes [] = []"
  by (simp add: runes.simps)

lemma LevenshteinDistance_empty:
  "LevenshteinDistance [] s = int (length (runes s)) \<and>
   LevenshteinDistance s [] = int (length (runes s))"
  by (simp add: LevenshteinDistance_def DynamicLevenshtein_runes)

lemma IndelDistance_empty:
  "IndelDistance [] s = int (length s) \<and> IndelDistance s [] = int (length s)"
  by simp

lemma DamerauLevenshtein_empty:
  "DamerauLevenshtein [] s = int (length s) \<and> DamerauLevenshtein s [] = int (length s)"
  by (cases s)
    (simp_all add: DamerauLevenshtein_def calculateDamerauLevenshteinDistance.simps Let_def)

lemma runes_ascii:
  "list_all (byte_in 0x00 0x7F) s \<Longrightarrow> runes s = map rune_of s"
proof (induction s)
  case Nil
  show ?case by simp
next
  case (Cons c s)
  then have c: "byte_in 0x00 0x7F c" and s: "runes s = map rune_of s" by simp_all
  have "runes (c # s) = fst (DecodeRuneInString (c # s)) #
      runes (drop (snd (DecodeRuneInString (c # s))) (c # s))"
    by (subst runes.simps) simp
  with c s show ?case by simp
qed

lemma LevenshteinDistance_sym: "LevenshteinDistance a b = LevenshteinDistance b a"
  by (simp add: LevenshteinDistance_def DynamicLevenshtein_runes RecursiveLevenshtein_sym)

lemma IndelDistance_sym: "IndelDistance a b = IndelDistance b a"
  by (induction a b rule: IndelDistance.induct) (simp_all add: Let_def min.commute)

lemma key_injective:
  "CHR ''|'' \<notin> set a \<Longrightarrow> CHR ''|'' \<notin> set a' \<Longrightarrow> a @ ''|'' @ b = a' @ ''|'' @ b' \<Longrightarrow>
     a = a' \<and> b = b'"
proof (induction a arbitrary: a')
  case Nil
  then show ?case by (cases a') auto
next
  case (Cons x a)
  then show ?case by (cases a') auto
qed

lemma cache_sound_update:
  "cache_sound c \<Longrightarrow> CHR ''|'' \<notin> set a \<Longrightarrow> CHR ''|'' \<notin> set b \<Longrightarrow>
     v = DamerauLevenshtein_recurrence a b \<Longrightarrow> cache_sound (c(a @ ''|'' @ b \<mapsto> v))"
  unfolding cache_sound_def
proof (intro allI impI)
  fix k w
  assume c: "\<forall>k v. c k = Some v \<longrightarrow>
        (\<exists>a b. k = a @ ''|'' @ b \<and> CHR ''|'' \<notin> set a \<and> CHR ''|'' \<notin> set b \<and>
               v = DamerauLevenshtein_recurrence a b)"
    and a: "CHR ''|'' \<notin> set a" and b: "CHR ''|'' \<notin> set b"
    and v: "v = DamerauLevenshtein_recurrence a b"
    and k: "(c(a @ ''|'' @ b \<mapsto> v)) k = Some w"
  show "\<exists>a b. k = a @ ''|'' @ b \<and> CHR ''|'' \<notin> set a \<and> CHR ''|'' \<notin> set b \<and>
               w = DamerauLevenshtein_recurrence a b"
  proof (cases "k = a @ ''|'' @ b")
    case True
    with k have "w = v" by simp
    with True a b v show ?thesis by blast
  next
    case False
    with k have "c k = Some w" by simp
    with c show ?thesis by blast
  qed
qed

lemma sound_result:
  "r = (v, c) \<Longrightarrow> v = w \<Longrightarrow> cache_sound c \<Longrightarrow> fst r = w \<and> cache_sound (snd r)"
  by simp

lemma DamerauLevenshtein_recurrence_Nil2 [simp]:
  "DamerauLevenshtein_recurrence a [] = int (length a)"
  by (cases a) simp_all

lemma calculateDamerauLevenshteinDistance_sound:
  "cache_sound cache \<Longrightarrow> CHR ''|'' \<notin> set a \<Longrightarrow> CHR ''|'' \<notin> set b \<Longrightarrow>
     fst (calculateDamerauLevenshteinDistance a b cache) = DamerauLevenshtein_recurrence a b \<and>
     cache_sound (snd (calculateDamerauLevenshteinDistance a b cache))"
proof (induction a b cache rule: calculateDamerauLevenshteinDistance.induct)
  case (1 a b cache)
  let ?calc = calculateDamerauLevenshteinDistance
  let ?rec = DamerauLevenshtein_recurrence
  let ?key = "a @ ''|'' @ b"
  note cs = "1.prems"(1) and na = "1.prems"(2) and nb = "1.prems"(3)
  show ?case
  proof (cases "cache ?key")
    case (Some v)
    then have eq: "?calc a b cache = (v, cache)"
      by (subst calculateDamerauLevenshteinDistance.simps) (simp add: Let_def)
    from cs Some obtain a' b' where k: "?key = a' @ ''|'' @ b'" "CHR ''|'' \<notin> set a'"
      and v: "v = ?rec a' b'"
      unfolding cache_sound_def by blast
    from key_injective [OF na k(2) k(1)] v have "v = ?rec a b" by simp
    then show ?thesis using cs by (intro sound_result [OF eq])
  next
    case None
    show ?thesis
    proof (cases a)
      case Nil
      then have eq: "?calc a b cache = (int (length b), cache(?key \<mapsto> int (length b)))"
        using None by (subst calculateDamerauLevenshteinDistance.simps) (simp add: Let_def)
      have v: "int (length b) = ?rec a b" using Nil by simp
      have "cache_sound (cache(?key \<mapsto> int (length b)))"
        using cs na nb v by (rule cache_sound_update)
      then show ?thesis by (rule sound_result [OF eq v])
    next
      case a: (Cons a0 a1)
      show ?thesis
      proof (cases b)
        case Nil
        then have eq: "?calc a b cache = (int (length a), cache(?key \<mapsto> int (length a)))"
          using None a by (subst calculateDamerauLevenshteinDistance.simps) (simp add: Let_def)
        have v: "int (length a) = ?rec a b" using Nil by simp
        have "cache_sound (cache(?key \<mapsto> int (length a)))"
          using cs na nb v by (rule cache_sound_update)
        then show ?thesis by (rule sound_result [OF eq v])
      next
        case b: (Cons b0 b1)
        have na1: "CHR ''|'' \<notin> set a1" and nb1: "CHR ''|'' \<notin> set b1" using na nb a b by simp_all
        show ?thesis
        proof (cases "a0 = b0")
          case True
          obtain v1 c1 where r1: "?calc a1 b1 cache = (v1, c1)" by (cases "?calc a1 b1 cache")
          from "1.IH"(1) [OF refl None a b True cs na1 nb1] r1
          have 1: "v1 = ?rec a1 b1" "cache_sound c1" by simp_all
          have eq: "?calc a b cache = (v1, c1(?key \<mapsto> v1))"
            using None a b True r1
            by (subst calculateDamerauLevenshteinDistance.simps) (simp add: Let_def)
          have v: "v1 = ?rec a b" using 1(1) a b True by simp
          have "cache_sound (c1(?key \<mapsto> v1))" using 1(2) na nb v by (rule cache_sound_update)
          then show ?thesis by (rule sound_result [OF eq v])
        next
          case False
          obtain v1 c1 where r1: "?calc a b1 cache = (v1, c1)" by (cases "?calc a b1 cache")
          from "1.IH"(2) [OF refl None a b False cs na nb1] r1
          have 1: "v1 = ?rec a b1" "cache_sound c1" by simp_all
          obtain v2 c2 where r2: "?calc a1 b c1 = (v2, c2)" by (cases "?calc a1 b c1")
          from "1.IH"(3) [OF refl None a b False r1 [symmetric] 1(2) na1 nb] r2
          have 2: "v2 = ?rec a1 b" "cache_sound c2" by simp_all
          obtain v3 c3 where r3: "?calc a1 b1 c2 = (v3, c3)" by (cases "?calc a1 b1 c2")
          from "1.IH"(4) [OF refl None a b False r1 [symmetric] r2 [symmetric] 2(2) na1 nb1] r3
          have 3: "v3 = ?rec a1 b1" "cache_sound c3" by simp_all
          let ?m = "1 + min v1 (min v2 v3)"
          show ?thesis
          proof (cases "1 < length a \<and> 1 < length b \<and> a0 = b ! 1 \<and> a ! 1 = b0")
            case tr: True
            have nd: "CHR ''|'' \<notin> set (drop 2 a)" "CHR ''|'' \<notin> set (drop 2 b)"
              using na nb by (auto dest: in_set_dropD)
            obtain v4 c4 where r4: "?calc (drop 2 a) (drop 2 b) c3 = (v4, c4)"
              by (cases "?calc (drop 2 a) (drop 2 b) c3")
            from "1.IH"(5) [OF refl None a b False r1 [symmetric] r2 [symmetric] r3 [symmetric]
                refl tr 3(2) nd] r4
            have 4: "v4 = ?rec (drop 2 a) (drop 2 b)" "cache_sound c4" by simp_all
            let ?r = "min ?m (1 + v4)"
            have eq: "?calc a b cache = (?r, c4(?key \<mapsto> ?r))"
              using None a b False r1 r2 r3 r4 tr
              by (subst calculateDamerauLevenshteinDistance.simps) (simp add: Let_def)
            have c: "a1 \<noteq> [] \<and> b1 \<noteq> [] \<and> a0 = hd b1 \<and> hd a1 = b0"
              and t: "drop 2 a = tl a1" "drop 2 b = tl b1"
              using tr a b by (cases a1; cases b1; simp)+
            have "?rec (a0 # a1) (b0 # b1) =
                min (1 + min (?rec (a0 # a1) b1) (min (?rec a1 (b0 # b1)) (?rec a1 b1)))
                  (1 + ?rec (tl a1) (tl b1))"
              using False c by (simp only: DamerauLevenshtein_recurrence.simps Let_def if_False if_True simp_thms)
            then have "?rec a b =
                min (1 + min (?rec a b1) (min (?rec a1 b) (?rec a1 b1)))
                  (1 + ?rec (drop 2 a) (drop 2 b))"
              unfolding t unfolding a b .
            then have v: "?r = ?rec a b" unfolding 1(1) 2(1) 3(1) 4(1) by (rule sym)
            have "cache_sound (c4(?key \<mapsto> ?r))" using 4(2) na nb v by (rule cache_sound_update)
            then show ?thesis by (rule sound_result [OF eq v])
          next
            case notr: False
            have eq: "?calc a b cache = (?m, c3(?key \<mapsto> ?m))"
              using None a b False r1 r2 r3 notr
              by (subst calculateDamerauLevenshteinDistance.simps) (auto simp: Let_def)
            have c: "\<not> (a1 \<noteq> [] \<and> b1 \<noteq> [] \<and> a0 = hd b1 \<and> hd a1 = b0)"
              using notr a b by (cases a1; cases b1) auto
            have "?rec (a0 # a1) (b0 # b1) =
                1 + min (?rec (a0 # a1) b1) (min (?rec a1 (b0 # b1)) (?rec a1 b1))"
              using False c by (simp only: DamerauLevenshtein_recurrence.simps Let_def if_False simp_thms)
            then have "?rec a b = 1 + min (?rec a b1) (min (?rec a1 b) (?rec a1 b1))"
              unfolding a b .
            then have v: "?m = ?rec a b" unfolding 1(1) 2(1) 3(1) by (rule sym)
            have "cache_sound (c3(?key \<mapsto> ?m))" using 3(2) na nb v by (rule cache_sound_update)
            then show ?thesis by (rule sound_result [OF eq v])
          qed
        qed
      qed
    qed
  qed
qed

lemma DamerauLevenshtein_without_separator:
  "CHR ''|'' \<notin> set a \<Longrightarrow> CHR ''|'' \<notin> set b \<Longrightarrow>
     DamerauLevenshtein a b = DamerauLevenshtein_recurrence a b"
  using calculateDamerauLevenshteinDistance_sound [of Map.empty a b]
  by (simp add: DamerauLevenshtein_def cache_sound_def)

end
